theory Spec2Isabelle
  imports Main "HOL-Library.Multiset"
begin

section \<open>JavaScript values and the object heap\<close>

text \<open>
  The state tree of \<^verbatim>\<open>StateManager\<close> is a graph of mutable JavaScript objects:
  \<^verbatim>\<open>{ ...this.state }\<close> copies one level only, so the copies share every nested object
  with the live tree. Objects therefore live in a heap, addressed by \<open>Ref\<close>.
  Numbers are integers (no NaN, no fractions). An array is a heap object that carries
  its \<^verbatim>\<open>length\<close> as a property. Members inherited from a prototype
  (\<^verbatim>\<open>toString\<close>, \<^verbatim>\<open>constructor\<close>, ...) are not modelled: a path segment
  is taken not to name one.
\<close>

datatype jsval = Undefined | Null | Bool bool | Num int | Str string | Ref nat

type_synonym jsobj = "(string \<times> jsval) list"

text \<open>The heap lists the objects by address; an address stands in it at most once.\<close>

type_synonym heap = "(nat \<times> jsobj) list"

text \<open>\<^verbatim>\<open>!v\<close> is true for undefined, null, false, 0 and the empty string.\<close>

fun truthy :: "jsval \<Rightarrow> bool" where
  "truthy Undefined = False"
| "truthy Null = False"
| "truthy (Bool b) = b"
| "truthy (Num n) = (n \<noteq> 0)"
| "truthy (Str s) = (s \<noteq> [])"
| "truthy (Ref a) = True"

definition obj_at :: "heap \<Rightarrow> nat \<Rightarrow> jsobj" where
  "obj_at h a = (case map_of h a of None \<Rightarrow> [] | Some ob \<Rightarrow> ob)"

text \<open>Storing an object at an address: in place when the address is in use, else last.\<close>

fun heap_put :: "heap \<Rightarrow> nat \<Rightarrow> jsobj \<Rightarrow> heap" where
  "heap_put [] a ob = [(a, ob)]"
| "heap_put ((a', ob') # h) a ob =
     (if a' = a then (a, ob) # h else (a', ob') # heap_put h a ob)"

text \<open>\<^verbatim>\<open>obj[key] = v\<close> on an object: an existing property keeps its place, a new one
  is added last.\<close>

fun set_prop :: "jsobj \<Rightarrow> string \<Rightarrow> jsval \<Rightarrow> jsobj" where
  "set_prop [] k v = [(k, v)]"
| "set_prop ((k', v') # ps) k v =
     (if k' = k then (k, v) # ps else (k', v') # set_prop ps k v)"

text \<open>A canonical array index: decimal digits with no leading zero.\<close>

definition digit_val :: "char \<Rightarrow> nat option" where
  "digit_val c = (let n = of_char c :: nat in
     if 48 \<le> n \<and> n \<le> 57 then Some (n - 48) else None)"

fun digits_val :: "nat \<Rightarrow> string \<Rightarrow> nat option" where
  "digits_val acc [] = Some acc"
| "digits_val acc (c # cs) =
     (case digit_val c of None \<Rightarrow> None | Some d \<Rightarrow> digits_val (10 * acc + d) cs)"

definition index_of_key :: "string \<Rightarrow> nat option" where
  "index_of_key k =
     (if k = [] then None
      else if hd k = CHR ''0'' \<and> tl k \<noteq> [] then None
      else digits_val 0 k)"

text \<open>\<^verbatim>\<open>v[key]\<close>: an own property of an object; the length and the characters of a
  string; undefined on the other primitives.\<close>

definition get_prop :: "heap \<Rightarrow> jsval \<Rightarrow> string \<Rightarrow> jsval" where
  "get_prop h v k =
     (case v of
        Ref a \<Rightarrow> (case map_of (obj_at h a) k of None \<Rightarrow> Undefined | Some x \<Rightarrow> x)
      | Str s \<Rightarrow>
          (if k = ''length'' then Num (int (length s))
           else (case index_of_key k of
                   None \<Rightarrow> Undefined
                 | Some i \<Rightarrow> if i < length s then Str [s ! i] else Undefined))
      | _ \<Rightarrow> Undefined)"

text \<open>\<^verbatim>\<open>path.split('.')\<close>: never empty; the empty string gives one empty segment.\<close>

fun split_dot :: "string \<Rightarrow> string list" where
  "split_dot [] = [[]]"
| "split_dot (c # cs) =
     (if c = CHR ''.'' then [] # split_dot cs
      else (case split_dot cs of
              [] \<Rightarrow> [[c]]
            | w # ws \<Rightarrow> (c # w) # ws))"

section \<open>The state store\<close>

text \<open>
  A callback is a host function, known by its reference (a number) and by whether it
  throws on given arguments, or the closure \<^verbatim>\<open>updateComputed\<close> that
  \<^verbatim>\<open>computed\<close> builds, or a value that is not a function. Host callbacks observe:
  they do not call back into the store.
\<close>

datatype callback =
    Extern nat "jsval \<Rightarrow> string \<Rightarrow> bool"
  | UpdateComputed nat "jsval list \<Rightarrow> jsval" "string list" string
  | NonFunction jsval

datatype cbref = ExtRef nat | CompRef nat | ValRef jsval

fun ref_of :: "callback \<Rightarrow> cbref" where
  "ref_of (Extern i t) = ExtRef i"
| "ref_of (UpdateComputed i f ds t) = CompRef i"
| "ref_of (NonFunction v) = ValRef v"

fun is_function :: "callback \<Rightarrow> bool" where
  "is_function (NonFunction v) = False"
| "is_function c = True"

record subscription =
  sid :: nat
  callback :: callback
  ctx :: jsval
  immediate :: bool
  once :: bool

record history_entry =
  timestamp :: int
  oldState :: nat
  newState :: nat

text \<open>What the outside sees of a run: each call of a callback with its arguments, and
  each \<^verbatim>\<open>console.error\<close> of a dispatch site.\<close>

datatype trace = Called cbref jsval string | ErrorLogged string

text \<open>
  \<open>state\<close> is the address of \<^verbatim>\<open>this.state\<close>; \<open>subscribers\<close> maps a path to its
  subscriptions in insertion order (a \<^verbatim>\<open>Set\<close> of fresh objects, told apart
  by \<open>sid\<close>); \<open>collectors\<close> holds the \<^verbatim>\<open>changedKeys\<close> sets of the
  \<^verbatim>\<open>batch\<close> calls in progress, innermost first: while it is not empty,
  \<^verbatim>\<open>this._notifySubscribers\<close> is the collector closure of its head, and the
  closure saved as \<^verbatim>\<open>originalNotify\<close> is the one of its tail; \<open>clock\<close> is what
  \<^verbatim>\<open>Date.now()\<close> returns.
\<close>

record store =
  heap :: heap
  nxt :: nat
  state :: nat
  subscribers :: "string \<Rightarrow> subscription list option"
  next_sid :: nat
  history :: "history_entry list"
  maxHistoryLength :: nat
  collectors :: "string list list"
  clock :: int
  log :: "trace list"

definition alloc :: "store \<Rightarrow> jsobj \<Rightarrow> nat \<times> store" where
  "alloc s ob = (nxt s, s\<lparr>heap := heap_put (heap s) (nxt s) ob, nxt := Suc (nxt s)\<rparr>)"

text \<open>\<^verbatim>\<open>{ ...this.state }\<close>: a new object with the same properties, one level deep.\<close>

definition shallow_copy :: "store \<Rightarrow> nat \<times> store" where
  "shallow_copy s = alloc s (obj_at (heap s) (state s))"

text \<open>The constructor.\<close>

definition new_StateManager :: "int \<Rightarrow> store" where
  "new_StateManager now =
     \<lparr> heap = [
         (0, [(''isLoading'', Bool False), (''currentSection'', Str ''hero''),
              (''theme'', Str ''dark''), (''navigationVisible'', Bool True),
              (''mobileMenuOpen'', Bool False), (''skills'', Ref 1), (''projects'', Ref 2),
              (''blogPosts'', Ref 3), (''experience'', Ref 4), (''modalOpen'', Bool False),
              (''modalContent'', Null), (''performanceMetrics'', Ref 5),
              (''preferences'', Ref 6)]),
         (1, [(''length'', Num 0)]), (2, [(''length'', Num 0)]),
         (3, [(''length'', Num 0)]), (4, [(''length'', Num 0)]),
         (5, []),
         (6, [(''reducedMotion'', Bool False), (''highContrast'', Bool False),
              (''fontSize'', Str ''normal'')])],
       nxt = 7, state = 0, subscribers = Map.empty, next_sid = 0, history = [],
       maxHistoryLength = 50, collectors = [], clock = now, log = [] \<rparr>"

subsection \<open>getState\<close>

definition read_step :: "heap \<Rightarrow> jsval \<Rightarrow> string \<Rightarrow> jsval" where
  "read_step h ob prop =
     (if truthy ob \<and> get_prop h ob prop \<noteq> Undefined then get_prop h ob prop else Undefined)"

definition read_path :: "heap \<Rightarrow> nat \<Rightarrow> string \<Rightarrow> jsval" where
  "read_path h root key = foldl (read_step h) (Ref root) (split_dot key)"

text \<open>\<^verbatim>\<open>getState(key)\<close>: with no key (or the empty string) a fresh shallow copy of
  the tree, else the value at the path.\<close>

definition getState :: "store \<Rightarrow> string \<Rightarrow> jsval \<times> store" where
  "getState s key =
     (if key = [] then (let (a, s') = shallow_copy s in (Ref a, s'))
      else (read_path (heap s) (state s) key, s))"

subsection \<open>setState: the writes and the history\<close>

text \<open>One step of the \<^verbatim>\<open>reduce\<close> of \<^verbatim>\<open>_setNestedValue\<close>: a segment that
  holds no object gets a new empty one.\<close>

definition descend :: "nat \<times> store \<Rightarrow> string \<Rightarrow> nat \<times> store" where
  "descend as key =
     (let (a, s) = as in
      case get_prop (heap s) (Ref a) key of
        Ref b \<Rightarrow> (b, s)
      | _ \<Rightarrow>
          (let (b, s1) = alloc s [] in
           (b, s1\<lparr>heap := heap_put (heap s1) a (set_prop (obj_at (heap s1) a) key (Ref b))\<rparr>)))"

definition setNestedValue :: "store \<Rightarrow> string \<Rightarrow> jsval \<Rightarrow> store" where
  "setNestedValue s path v =
     (let keys = split_dot path;
          lastKey = last keys;
          (target, s1) = foldl descend (state s, s) (butlast keys)
      in s1\<lparr>heap := heap_put (heap s1) target (set_prop (obj_at (heap s1) target) lastKey v)\<rparr>)"

definition addToHistory :: "store \<Rightarrow> nat \<Rightarrow> nat \<Rightarrow> store" where
  "addToHistory s old new =
     (let hs = history s @ [\<lparr>timestamp = clock s, oldState = old, newState = new\<rparr>]
      in s\<lparr>history := (if length hs > maxHistoryLength s then tl hs else hs)\<rparr>)"

text \<open>The first argument of \<^verbatim>\<open>setState\<close>: a path, or an object whose entries
  (in the order of \<^verbatim>\<open>Object.entries\<close>) are paths with their values.\<close>

datatype setkey = Path string | Bulk "(string \<times> jsval) list"

definition apply_writes :: "store \<Rightarrow> setkey \<Rightarrow> jsval \<Rightarrow> store" where
  "apply_writes s key v =
     (case key of
        Bulk kvs \<Rightarrow> fold (\<lambda>(k, x) st. setNestedValue st k x) kvs s
      | Path p \<Rightarrow> setNestedValue s p v)"

text \<open>\<^verbatim>\<open>setState\<close> up to its notifications: copy the tree, write, copy again,
  append to the history.\<close>

definition setState_apply :: "store \<Rightarrow> setkey \<Rightarrow> jsval \<Rightarrow> store" where
  "setState_apply s key v =
     (let (old, s1) = shallow_copy s;
          s2 = apply_writes s1 key v;
          (new, s3) = shallow_copy s2
      in addToHistory s3 old new)"

subsection \<open>Calling a subscriber\<close>

text \<open>\<^verbatim>\<open>dependencies.map(dep => this.getState(dep))\<close>.\<close>

fun getStates :: "store \<Rightarrow> string list \<Rightarrow> jsval list \<times> store" where
  "getStates s [] = ([], s)"
| "getStates s (d # ds) =
     (let (v, s1) = getState s d;
          (vs, s2) = getStates s1 ds
      in (v # vs, s2))"

text \<open>The closure \<^verbatim>\<open>updateComputed\<close>. Its last line is
  \<^verbatim>\<open>this.setState(targetKey, result, true)\<close>: a silent \<^verbatim>\<open>setState\<close>, which is
  \<open>setState_apply\<close> (see \<open>setState_silent\<close> below). The compute function is taken to
  return.\<close>

definition updateComputed ::
  "store \<Rightarrow> (jsval list \<Rightarrow> jsval) \<Rightarrow> string list \<Rightarrow> string \<Rightarrow> store" where
  "updateComputed s computeFn dependencies targetKey =
     (let (inputs, s1) = getStates s dependencies;
          result = computeFn inputs
      in setState_apply s1 (Path targetKey) result)"

text \<open>A call \<^verbatim>\<open>callback(value, key)\<close>: the store after it, and whether it threw.
  Calling a value that is not a function throws a TypeError.\<close>

definition log_call :: "store \<Rightarrow> cbref \<Rightarrow> jsval \<Rightarrow> string \<Rightarrow> store" where
  "log_call s r v key = s\<lparr>log := log s @ [Called r v key]\<rparr>"

definition call_callback :: "store \<Rightarrow> callback \<Rightarrow> jsval \<Rightarrow> string \<Rightarrow> store \<times> bool" where
  "call_callback s cb v key =
     (case cb of
        Extern i throws \<Rightarrow> (log_call s (ExtRef i) v key, throws v key)
      | UpdateComputed i f deps t \<Rightarrow>
          (updateComputed (log_call s (CompRef i) v key) f deps t, False)
      | NonFunction x \<Rightarrow> (s, True))"

definition invoke :: "store \<Rightarrow> subscription \<Rightarrow> jsval \<Rightarrow> string \<Rightarrow> store \<times> bool" where
  "invoke s sub v key =
     (if truthy (ctx sub) then call_callback s (callback sub) v key
      else call_callback s (callback sub) v key)"

definition console_error :: "store \<Rightarrow> string \<Rightarrow> store" where
  "console_error s key = s\<lparr>log := log s @ [ErrorLogged key]\<rparr>"

definition bucket :: "store \<Rightarrow> string \<Rightarrow> subscription list" where
  "bucket s key = (case subscribers s key of None \<Rightarrow> [] | Some subs \<Rightarrow> subs)"

text \<open>\<^verbatim>\<open>this.subscribers.get(key).delete(subscription)\<close>: by the identity of the
  subscription object.\<close>

definition delete_subscription :: "store \<Rightarrow> string \<Rightarrow> subscription \<Rightarrow> store" where
  "delete_subscription s key sub =
     s\<lparr>subscribers := (subscribers s)(key \<mapsto> filter (\<lambda>x. sid x \<noteq> sid sub) (bucket s key))\<rparr>"

text \<open>The body of the \<^verbatim>\<open>forEach\<close> of \<^verbatim>\<open>_notifySubscribers\<close>: the removal of
  a once subscription stands after the call, inside the \<^verbatim>\<open>try\<close>.\<close>

definition notify_one :: "string \<Rightarrow> jsval \<Rightarrow> subscription \<Rightarrow> store \<Rightarrow> store" where
  "notify_one key currentValue sub s =
     (let (s1, threw) = invoke s sub currentValue key in
      if threw then console_error s1 key
      else if once sub then delete_subscription s1 key sub
      else s1)"

text \<open>The end of \<^verbatim>\<open>_notifySubscribers\<close>: a set left empty is deleted.\<close>

definition cleanup :: "string \<Rightarrow> store \<Rightarrow> store" where
  "cleanup key s =
     (if bucket s key = [] then s\<lparr>subscribers := (subscribers s)(key := None)\<rparr> else s)"

text \<open>\<^verbatim>\<open>_notifySubscribers\<close>: the loop runs over a copy of the set
  (\<^verbatim>\<open>Array.from\<close>), and every subscriber gets the one value read before it.\<close>

definition notifySubscribers :: "store \<Rightarrow> string \<Rightarrow> store" where
  "notifySubscribers s key =
     (case subscribers s key of
        None \<Rightarrow> s
      | Some subscriptions \<Rightarrow>
          (let (currentValue, s1) = getState s key;
               s2 = fold (notify_one key currentValue) subscriptions s1
           in cleanup key s2))"

text \<open>The collector that \<^verbatim>\<open>batch\<close> installs: \<^verbatim>\<open>changedKeys.add(key)\<close>.\<close>

definition set_add :: "string \<Rightarrow> string list \<Rightarrow> string list" where
  "set_add k ks = (if k \<in> set ks then ks else ks @ [k])"

text \<open>The call \<^verbatim>\<open>this._notifySubscribers(key)\<close>, through the property of the
  instance.\<close>

definition this_notifySubscribers :: "store \<Rightarrow> string \<Rightarrow> store" where
  "this_notifySubscribers s key =
     (case collectors s of
        [] \<Rightarrow> notifySubscribers s key
      | c # cs \<Rightarrow> s\<lparr>collectors := set_add key c # cs\<rparr>)"

subsection \<open>setState\<close>

definition setState :: "store \<Rightarrow> setkey \<Rightarrow> jsval \<Rightarrow> bool \<Rightarrow> store" where
  "setState s key v silent =
     (let s1 = setState_apply s key v in
      if \<not> silent then
        (case key of
           Bulk kvs \<Rightarrow> fold (\<lambda>k st. this_notifySubscribers st k) (map fst kvs) s1
         | Path p \<Rightarrow> this_notifySubscribers s1 p)
      else s1)"

subsection \<open>subscribe, unsubscribe\<close>

datatype error = Error string

text \<open>The options object: an absent field is \<open>Undefined\<close>.\<close>

record sub_options =
  opt_context :: jsval
  opt_immediate :: jsval
  opt_once :: jsval

definition no_options :: sub_options where
  "no_options = \<lparr>opt_context = Undefined, opt_immediate = Undefined, opt_once = Undefined\<rparr>"

definition subscribe :: "store \<Rightarrow> string \<Rightarrow> callback \<Rightarrow> sub_options \<Rightarrow> error + store" where
  "subscribe s key cb options =
     (if \<not> is_function cb then Inl (Error ''Callback must be a function'')
      else
        (let subscription =
               \<lparr>sid = next_sid s, callback = cb,
                ctx = (if truthy (opt_context options) then opt_context options else Null),
                immediate = (opt_immediate options \<noteq> Bool False),
                once = truthy (opt_once options)\<rparr>;
             s1 = s\<lparr>subscribers := (subscribers s)(key \<mapsto> bucket s key @ [subscription]),
                    next_sid := Suc (next_sid s)\<rparr>
         in if immediate subscription then
              (let (currentValue, s2) = getState s1 key;
                   (s3, threw) = invoke s2 subscription currentValue key
               in Inr (if threw then console_error s3 key else s3))
            else Inr s1))"

fun remove_first :: "('a \<Rightarrow> bool) \<Rightarrow> 'a list \<Rightarrow> 'a list" where
  "remove_first P [] = []"
| "remove_first P (x # xs) = (if P x then xs else x # remove_first P xs)"

text \<open>\<^verbatim>\<open>unsubscribe\<close>, which is also what the function returned by
  \<^verbatim>\<open>subscribe\<close> runs.\<close>

definition unsubscribe :: "store \<Rightarrow> string \<Rightarrow> callback \<Rightarrow> store" where
  "unsubscribe s key cb =
     (case subscribers s key of
        None \<Rightarrow> s
      | Some subscriptions \<Rightarrow>
          (let subs' = remove_first (\<lambda>x. ref_of (callback x) = ref_of cb) subscriptions
           in if subs' = [] then s\<lparr>subscribers := (subscribers s)(key := None)\<rparr>
              else s\<lparr>subscribers := (subscribers s)(key \<mapsto> subs')\<rparr>))"

subsection \<open>computed\<close>

text \<open>\<^verbatim>\<open>this.subscribe(dep, updateComputed, { immediate: false })\<close> for a function:
  the check of \<^verbatim>\<open>subscribe\<close> passes and nothing is called.\<close>

definition subscribe_dep :: "callback \<Rightarrow> string \<Rightarrow> store \<Rightarrow> store" where
  "subscribe_dep cb dep s =
     (case subscribe s dep cb (no_options\<lparr>opt_immediate := Bool False\<rparr>) of
        Inl e \<Rightarrow> s
      | Inr s' \<Rightarrow> s')"


subsection \<open>batch\<close>

text \<open>The function given to \<^verbatim>\<open>batch\<close>: a sequence of \<^verbatim>\<open>setState\<close> calls,
  which a \<^verbatim>\<open>throw\<close> may end.\<close>

datatype action = SetState setkey jsval bool | Throw

fun run_actions :: "store \<Rightarrow> action list \<Rightarrow> store \<times> bool" where
  "run_actions s [] = (s, False)"
| "run_actions s (Throw # as) = (s, True)"
| "run_actions s (SetState key v silent # as) = run_actions (setState s key v silent) as"

text \<open>\<^verbatim>\<open>batch\<close>: the store after it, and whether the exception of
  \<^verbatim>\<open>updateFn\<close> leaves it (after the \<^verbatim>\<open>finally\<close> block has run).\<close>

definition batch :: "store \<Rightarrow> action list \<Rightarrow> store \<times> bool" where
  "batch s updateFn =
     (let originalNotify = collectors s;
          s1 = s\<lparr>collectors := [] # originalNotify\<rparr>;
          (s2, threw) = run_actions s1 updateFn;
          changedKeys = (case collectors s2 of [] \<Rightarrow> [] | c # cs \<Rightarrow> c);
          s3 = s2\<lparr>collectors := originalNotify\<rparr>;
          s4 = fold (\<lambda>key st. this_notifySubscribers st key) changedKeys s3
      in (s4, threw))"

section \<open>The event bus\<close>

text \<open>
  The envelope that \<^verbatim>\<open>emit\<close> builds. A listener is a host function, known by its
  reference and by whether it throws on a given envelope, or a value that is not a
  function (\<^verbatim>\<open>once\<close> does not check). Host listeners observe: they do not call
  back into the bus.
\<close>

record envelope =
  ev_type :: string
  ev_data :: jsval
  ev_timestamp :: int
  ev_source :: jsval

datatype listener = Fn nat "envelope \<Rightarrow> bool" | NotFn jsval

text \<open>\<^verbatim>\<open>handler.callback === callback\<close>.\<close>

fun same_listener :: "listener \<Rightarrow> listener \<Rightarrow> bool" where
  "same_listener (Fn i t) (Fn j u) = (i = j)"
| "same_listener (NotFn v) (NotFn w) = (v = w)"
| "same_listener a b = False"

record handler =
  hcallback :: listener
  hcontext :: jsval
  priority :: int
  honce :: bool

datatype bus_trace = Invoked nat envelope | HandlerError string

text \<open>Each registry maps an event name to its handlers in insertion order
  (a \<^verbatim>\<open>Set\<close> of fresh objects).\<close>

record bus =
  events :: "string \<Rightarrow> handler list option"
  onceEvents :: "string \<Rightarrow> handler list option"
  bus_log :: "bus_trace list"

definition new_EventBus :: bus where
  "new_EventBus = \<lparr>events = Map.empty, onceEvents = Map.empty, bus_log = []\<rparr>"

text \<open>The options of \<^verbatim>\<open>on\<close> and \<^verbatim>\<open>once\<close>; an absent priority is \<open>None\<close>,
  and \<^verbatim>\<open>options.priority || 0\<close> is then 0.\<close>

record on_options =
  on_context :: jsval
  on_priority :: "int option"

definition mk_handler :: "listener \<Rightarrow> on_options \<Rightarrow> bool \<Rightarrow> handler" where
  "mk_handler cb options is_once =
     \<lparr>hcallback = cb,
      hcontext = (if truthy (on_context options) then on_context options else Null),
      priority = (case on_priority options of None \<Rightarrow> 0 | Some p \<Rightarrow> p),
      honce = is_once\<rparr>"

definition handlers_of :: "(string \<Rightarrow> handler list option) \<Rightarrow> string \<Rightarrow> handler list" where
  "handlers_of m event = (case m event of None \<Rightarrow> [] | Some hs \<Rightarrow> hs)"

definition EventBus_on :: "bus \<Rightarrow> string \<Rightarrow> listener \<Rightarrow> on_options \<Rightarrow> error + bus" where
  "EventBus_on b event cb options =
     (case cb of
        NotFn v \<Rightarrow> Inl (Error ''Event callback must be a function'')
      | Fn i t \<Rightarrow>
          Inr (b\<lparr>events := (events b)(event \<mapsto>
                 handlers_of (events b) event @ [mk_handler cb options False])\<rparr>))"

definition EventBus_once :: "bus \<Rightarrow> string \<Rightarrow> listener \<Rightarrow> on_options \<Rightarrow> bus" where
  "EventBus_once b event cb options =
     b\<lparr>onceEvents := (onceEvents b)(event \<mapsto>
          handlers_of (onceEvents b) event @ [mk_handler cb options True])\<rparr>"

definition remove_handler ::
  "(string \<Rightarrow> handler list option) \<Rightarrow> string \<Rightarrow> listener \<Rightarrow> (string \<Rightarrow> handler list option)" where
  "remove_handler m event cb =
     (case m event of
        None \<Rightarrow> m
      | Some hs \<Rightarrow>
          (let hs' = remove_first (\<lambda>h. same_listener (hcallback h) cb) hs
           in if hs' = [] then m(event := None) else m(event \<mapsto> hs')))"

text \<open>\<^verbatim>\<open>off\<close> is what the function returned by \<^verbatim>\<open>on\<close> runs, and
  \<^verbatim>\<open>offOnce\<close> what the one returned by \<^verbatim>\<open>once\<close> runs.\<close>

definition EventBus_off :: "bus \<Rightarrow> string \<Rightarrow> listener \<Rightarrow> bus" where
  "EventBus_off b event cb = b\<lparr>events := remove_handler (events b) event cb\<rparr>"

definition EventBus_offOnce :: "bus \<Rightarrow> string \<Rightarrow> listener \<Rightarrow> bus" where
  "EventBus_offOnce b event cb = b\<lparr>onceEvents := remove_handler (onceEvents b) event cb\<rparr>"

text \<open>A call \<^verbatim>\<open>callback(eventData)\<close>: the bus after it, and whether it threw.\<close>

definition call_listener :: "bus \<Rightarrow> listener \<Rightarrow> envelope \<Rightarrow> bus \<times> bool" where
  "call_listener b cb eventData =
     (case cb of
        Fn i throws \<Rightarrow> (b\<lparr>bus_log := bus_log b @ [Invoked i eventData]\<rparr>, throws eventData)
      | NotFn v \<Rightarrow> (b, True))"

text \<open>The body of the \<^verbatim>\<open>forEach\<close> of \<^verbatim>\<open>_handleEventEmission\<close>, with its
  \<^verbatim>\<open>try\<close> and \<^verbatim>\<open>catch\<close>.\<close>

definition deliver :: "string \<Rightarrow> envelope \<Rightarrow> handler \<Rightarrow> bus \<Rightarrow> bus" where
  "deliver event eventData h b =
     (let (b1, threw) =
            (if truthy (hcontext h) then call_listener b (hcallback h) eventData
             else call_listener b (hcallback h) eventData)
      in if threw then b1\<lparr>bus_log := bus_log b1 @ [HandlerError event]\<rparr> else b1)"

text \<open>\<^verbatim>\<open>handlers.sort((a, b) => b.priority - a.priority)\<close>: a stable sort, the
  higher priority first.\<close>

definition sort_handlers :: "handler list \<Rightarrow> handler list" where
  "sort_handlers hs = sort_key (\<lambda>h. - priority h) hs"

definition handleEventEmission ::
  "bus \<Rightarrow> string \<Rightarrow> envelope \<Rightarrow> (string \<Rightarrow> handler list option) \<Rightarrow> bool \<Rightarrow> bus" where
  "handleEventEmission b event eventData eventMap isOnce =
     (case eventMap event of
        None \<Rightarrow> b
      | Some hs \<Rightarrow> fold (deliver event eventData) (sort_handlers hs) b)"

text \<open>\<^verbatim>\<open>emit(event, data = null, options = {})\<close>, with \<open>now\<close> what
  \<^verbatim>\<open>Date.now()\<close> returns and \<open>src\<close> the field \<^verbatim>\<open>options.source\<close>
  (\<open>Undefined\<close> when absent).\<close>

definition make_envelope :: "string \<Rightarrow> jsval \<Rightarrow> jsval \<Rightarrow> int \<Rightarrow> envelope" where
  "make_envelope event data src now =
     \<lparr>ev_type = event,
      ev_data = (if data = Undefined then Null else data),
      ev_timestamp = now,
      ev_source = (if truthy src then src else Str ''unknown'')\<rparr>"

definition EventBus_emit :: "bus \<Rightarrow> string \<Rightarrow> jsval \<Rightarrow> jsval \<Rightarrow> int \<Rightarrow> bus" where
  "EventBus_emit b event data src now =
     (let eventData = make_envelope event data src now;
          b1 = handleEventEmission b event eventData (events b) False;
          b2 = handleEventEmission b1 event eventData (onceEvents b1) True
      in if onceEvents b2 event \<noteq> None then b2\<lparr>onceEvents := (onceEvents b2)(event := None)\<rparr>
         else b2)"

section \<open>Observations\<close>

text \<open>
  The functions of this section are not code of the program: they read the traces, and
  say what one delivery is expected to leave in them.
\<close>

subsection \<open>On the event bus\<close>

text \<open>What the delivery of an envelope to one handler leaves in the trace.\<close>

definition delivery_trace :: "string \<Rightarrow> envelope \<Rightarrow> handler \<Rightarrow> bus_trace list" where
  "delivery_trace event ev h =
     (case hcallback h of
        Fn i throws \<Rightarrow> Invoked i ev # (if throws ev then [HandlerError event] else [])
      | NotFn v \<Rightarrow> [HandlerError event])"

fun is_invoked :: "nat \<Rightarrow> bus_trace \<Rightarrow> bool" where
  "is_invoked i (Invoked j ev) = (i = j)"
| "is_invoked i (HandlerError e) = False"

text \<open>The listeners called, in the order of their calls, and the number of errors
  logged.\<close>

fun invoked_of :: "bus_trace list \<Rightarrow> nat list" where
  "invoked_of [] = []"
| "invoked_of (Invoked i ev # ts) = i # invoked_of ts"
| "invoked_of (HandlerError e # ts) = invoked_of ts"

fun errors_of :: "bus_trace list \<Rightarrow> nat" where
  "errors_of [] = 0"
| "errors_of (Invoked i ev # ts) = errors_of ts"
| "errors_of (HandlerError e # ts) = Suc (errors_of ts)"

text \<open>The function listeners of a list of handlers, and whether the call of a handler
  throws.\<close>

fun function_ids :: "handler list \<Rightarrow> nat list" where
  "function_ids [] = []"
| "function_ids (h # hs) =
     (case hcallback h of Fn i t \<Rightarrow> i # function_ids hs | NotFn v \<Rightarrow> function_ids hs)"

definition throws_on :: "envelope \<Rightarrow> handler \<Rightarrow> bool" where
  "throws_on ev h = (case hcallback h of Fn i t \<Rightarrow> t ev | NotFn v \<Rightarrow> True)"

text \<open>The part of the trace that an operation added.\<close>

definition bus_added :: "bus \<Rightarrow> bus \<Rightarrow> bus_trace list" where
  "bus_added b b' = drop (length (bus_log b)) (bus_log b')"

subsection \<open>On the state store\<close>

text \<open>Two stores that differ in the heap, its next free address and the history
  only.\<close>

definition tree_only :: "store \<Rightarrow> store \<Rightarrow> bool" where
  "tree_only s s' =
     (subscribers s' = subscribers s \<and> next_sid s' = next_sid s \<and>
      collectors s' = collectors s \<and> clock s' = clock s \<and> log s' = log s \<and>
      maxHistoryLength s' = maxHistoryLength s \<and> state s' = state s)"

text \<open>Two stores with the same heap, next free address and history (and the same clock
  and history bound): what the reads and writes of the tree depend on.\<close>

definition same_tree :: "store \<Rightarrow> store \<Rightarrow> bool" where
  "same_tree s s' =
     (heap s' = heap s \<and> nxt s' = nxt s \<and> state s' = state s \<and> history s' = history s \<and>
      clock s' = clock s \<and> maxHistoryLength s' = maxHistoryLength s)"

text \<open>What the notification of one subscriber with a value leaves in the trace.\<close>

definition notification_trace :: "string \<Rightarrow> jsval \<Rightarrow> subscription \<Rightarrow> trace list" where
  "notification_trace key v sub =
     (case callback sub of
        Extern i throws \<Rightarrow>
          Called (ExtRef i) v key # (if throws v key then [ErrorLogged key] else [])
      | UpdateComputed i f deps t \<Rightarrow> [Called (CompRef i) v key]
      | NonFunction x \<Rightarrow> [ErrorLogged key])"

text \<open>Whether the call of a subscriber with a value returns, rather than throws.\<close>

definition returns_normally :: "string \<Rightarrow> jsval \<Rightarrow> subscription \<Rightarrow> bool" where
  "returns_normally key v sub =
     (case callback sub of
        Extern i throws \<Rightarrow> \<not> throws v key
      | UpdateComputed i f deps t \<Rightarrow> True
      | NonFunction x \<Rightarrow> False)"

text \<open>The part of the trace that an operation added.\<close>

definition added :: "store \<Rightarrow> store \<Rightarrow> trace list" where
  "added s s' = drop (length (log s)) (log s')"

text \<open>The callbacks called, in the order of their calls, and the number of errors
  logged.\<close>

fun called_of :: "trace list \<Rightarrow> cbref list" where
  "called_of [] = []"
| "called_of (Called r v k # ts) = r # called_of ts"
| "called_of (ErrorLogged k # ts) = called_of ts"

fun logged_errors :: "trace list \<Rightarrow> nat" where
  "logged_errors [] = 0"
| "logged_errors (Called r v k # ts) = logged_errors ts"
| "logged_errors (ErrorLogged k # ts) = Suc (logged_errors ts)"

text \<open>The path that an entry of the trace is about, and the paths that a
  \<^verbatim>\<open>setState\<close> writes.\<close>

fun trace_path :: "trace \<Rightarrow> string" where
  "trace_path (Called r v k) = k"
| "trace_path (ErrorLogged k) = k"

fun written_paths :: "setkey \<Rightarrow> string list" where
  "written_paths (Path p) = [p]"
| "written_paths (Bulk kvs) = map fst kvs"

text \<open>The trace expected of notifying the given paths one after the other: each
  subscriber of a path gets the value read at that path when its turn comes.\<close>

fun notifications :: "string list \<Rightarrow> store \<Rightarrow> trace list" where
  "notifications [] st = []"
| "notifications (k # ks) st =
     concat (map (notification_trace k (fst (getState st k))) (bucket st k)) @
     notifications ks (notifySubscribers st k)"

text \<open>
  What \<^verbatim>\<open>batch\<close> is expected to do with the calls of its function, up to the
  \<^verbatim>\<open>throw\<close> that may end them: \<open>batch_writes\<close> makes every write as a silent
  \<^verbatim>\<open>setState\<close>, and \<open>batch_paths\<close> lists the paths of the writes that are not
  silent, each once, in the order of their first write.
\<close>

fun batch_writes :: "store \<Rightarrow> action list \<Rightarrow> store" where
  "batch_writes s [] = s"
| "batch_writes s (Throw # as) = s"
| "batch_writes s (SetState key v silent # as) = batch_writes (setState s key v True) as"

fun batch_collect :: "string list \<Rightarrow> action list \<Rightarrow> string list" where
  "batch_collect c [] = c"
| "batch_collect c (Throw # as) = c"
| "batch_collect c (SetState key v silent # as) =
     batch_collect (if silent then c else fold set_add (written_paths key) c) as"

definition batch_paths :: "action list \<Rightarrow> string list" where
  "batch_paths fn = batch_collect [] fn"


text \<open>The history is within its bound.\<close>

definition history_bounded :: "store \<Rightarrow> bool" where
  "history_bounded s = (length (history s) \<le> maxHistoryLength s)"

subsection \<open>Example stores\<close>

text \<open>A host callback that never throws, and a fresh store with one subscriber on
  \<^verbatim>\<open>preferences\<close> and one on \<^verbatim>\<open>preferences.reducedMotion\<close>, both registered with
  \<^verbatim>\<open>{ immediate: false }\<close>.\<close>

definition quiet :: "jsval \<Rightarrow> string \<Rightarrow> bool" where
  "quiet v k = False"

definition watched_store :: store where
  "watched_store =
     subscribe_dep (Extern 2 quiet) ''preferences.reducedMotion''
       (subscribe_dep (Extern 1 quiet) ''preferences'' (new_StateManager 0))"

text \<open>A host callback that always throws, and a fresh store where it is subscribed to
  \<^verbatim>\<open>isLoading\<close> with \<^verbatim>\<open>{ once: true, immediate: false }\<close>.\<close>

definition always_throws :: "jsval \<Rightarrow> string \<Rightarrow> bool" where
  "always_throws v k = True"

definition faulty_once_store :: store where
  "faulty_once_store =
     (case subscribe (new_StateManager 0) ''isLoading'' (Extern 1 always_throws)
             \<lparr>opt_context = Undefined, opt_immediate = Bool False, opt_once = Bool True\<rparr> of
        Inl e \<Rightarrow> new_StateManager 0
      | Inr s \<Rightarrow> s)"

definition faulty_once_subscription :: subscription where
  "faulty_once_subscription =
     \<lparr>sid = 0, callback = Extern 1 always_throws, ctx = Null, immediate = False, once = True\<rparr>"

text \<open>A fresh store with one subscriber on \<^verbatim>\<open>k\<close>.\<close>

definition k_watch_store :: store where
  "k_watch_store = subscribe_dep (Extern 1 quiet) ''k'' (new_StateManager 0)"



text \<open>A fresh store after \<^verbatim>\<open>setState('preferences.reducedMotion', true)\<close>.\<close>

definition nested_write_store :: store where
  "nested_write_store =
     setState (new_StateManager 0) (Path ''preferences.reducedMotion'') (Bool True) False"

text \<open>A listener that never throws; no options; and a bus where the same listener is
  registered for \<^verbatim>\<open>test-event\<close> by \<^verbatim>\<open>on\<close> and then by \<^verbatim>\<open>once\<close>.\<close>

definition calm :: "envelope \<Rightarrow> bool" where
  "calm ev = False"

definition no_on_options :: on_options where
  "no_on_options = \<lparr>on_context = Undefined, on_priority = None\<rparr>"

definition both_registered_bus :: bus where
  "both_registered_bus =
     (case EventBus_on new_EventBus ''test-event'' (Fn 1 calm) no_on_options of
        Inl err \<Rightarrow> new_EventBus
      | Inr b \<Rightarrow> EventBus_once b ''test-event'' (Fn 1 calm) no_on_options)"

text \<open>The callbacks subscribed in a list of subscriptions.\<close>

definition refs_of :: "subscription list \<Rightarrow> cbref set" where
  "refs_of subs = (\<lambda>x. ref_of (callback x)) ` set subs"











section \<open>Properties of the event bus\<close>

lemma deliver_log:
  "deliver e ev h b = b\<lparr>bus_log := bus_log b @ delivery_trace e ev h\<rparr>"
  by (cases "hcallback h")
     (simp_all add: deliver_def call_listener_def delivery_trace_def)

lemma fold_deliver:
  "fold (deliver e ev) hs b = b\<lparr>bus_log := bus_log b @ concat (map (delivery_trace e ev) hs)\<rparr>"
  by (induction hs arbitrary: b) (simp_all add: deliver_log)

lemma handleEventEmission_log:
  "handleEventEmission b e ev m isOnce =
     b\<lparr>bus_log := bus_log b @ concat (map (delivery_trace e ev) (sort_handlers (handlers_of m e)))\<rparr>"
  by (cases "m e")
     (simp_all add: handleEventEmission_def handlers_of_def fold_deliver sort_handlers_def)

lemma emit_eq:
  "EventBus_emit b e d src now =
     b\<lparr>bus_log := bus_log b @
          concat (map (delivery_trace e (make_envelope e d src now))
            (sort_handlers (handlers_of (events b) e) @
             sort_handlers (handlers_of (onceEvents b) e))),
       onceEvents := (onceEvents b)(e := None)\<rparr>"
  by (cases "onceEvents b e")
     (simp_all add: EventBus_emit_def handleEventEmission_log Let_def fun_upd_idem)

lemma bus_added_emit:
  "bus_added b (EventBus_emit b e d src now) =
     concat (map (delivery_trace e (make_envelope e d src now))
       (sort_handlers (handlers_of (events b) e) @ sort_handlers (handlers_of (onceEvents b) e)))"
  by (simp add: bus_added_def emit_eq)

lemma sort_handlers_sorted: "sorted (map (\<lambda>h. - priority h) (sort_handlers hs))"
  by (simp add: sort_handlers_def)

lemma sort_handlers_stable:
  "filter (\<lambda>h. priority h = p) (sort_handlers hs) = filter (\<lambda>h. priority h = p) hs"
proof -
  have "filter (\<lambda>h. - priority h = - p) (sort_key (\<lambda>h. - priority h) hs) =
        filter (\<lambda>h. - priority h = - p) hs"
    by (rule sort_key_stable)
  then show ?thesis by (simp add: sort_handlers_def)
qed

lemma invoked_of_append: "invoked_of (xs @ ys) = invoked_of xs @ invoked_of ys"
  by (induction xs rule: invoked_of.induct) simp_all

lemma errors_of_append: "errors_of (xs @ ys) = errors_of xs + errors_of ys"
  by (induction xs rule: errors_of.induct) simp_all

lemma invoked_of_deliveries:
  "invoked_of (concat (map (delivery_trace e ev) hs)) = function_ids hs"
  by (induction hs) (auto simp: invoked_of_append delivery_trace_def split: listener.splits)

lemma errors_of_deliveries:
  "errors_of (concat (map (delivery_trace e ev) hs)) = length (filter (throws_on ev) hs)"
  by (induction hs)
     (auto simp: errors_of_append delivery_trace_def throws_on_def split: listener.splits)

lemma filter_invoked_deliveries:
  "filter (is_invoked i) (concat (map (delivery_trace e ev) hs)) =
     replicate (count_list (function_ids hs) i) (Invoked i ev)"
  by (induction hs) (auto simp: delivery_trace_def split: listener.splits)

lemma function_ids_append: "function_ids (xs @ ys) = function_ids xs @ function_ids ys"
  by (induction xs) (auto split: listener.splits)

lemma function_ids_insort:
  "mset (function_ids (insort_key f h hs)) = mset (function_ids (h # hs))"
  by (induction hs) (auto split: listener.splits)

lemma function_ids_sort: "mset (function_ids (sort_handlers hs)) = mset (function_ids hs)"
  unfolding sort_handlers_def
proof (induction hs)
  case Nil
  then show ?case by simp
next
  case (Cons h hs)
  have "mset (function_ids (sort_key (\<lambda>h. - priority h) (h # hs))) =
        mset (function_ids (h # sort_key (\<lambda>h. - priority h) hs))"
    by (simp add: function_ids_insort del: function_ids.simps)
  with Cons show ?case by (auto split: listener.splits)
qed

lemma count_function_ids_sort:
  "count_list (function_ids (sort_handlers hs)) i = count_list (function_ids hs) i"
  using function_ids_sort [of hs] by (metis count_mset)

lemma length_filter_sort_handlers:
  "length (filter P (sort_handlers hs)) = length (filter P hs)"
proof -
  have "mset (filter P (sort_handlers hs)) = mset (filter P hs)"
    by (simp add: sort_handlers_def)
  then show ?thesis by (metis size_mset)
qed

lemma length_remove_first:
  "\<exists>x \<in> set xs. P x \<Longrightarrow> Suc (length (remove_first P xs)) = length xs"
  by (induction xs) auto

lemma function_ids_filter:
  "function_ids (filter (\<lambda>h. \<exists>i t. hcallback h = Fn i t) hs) = function_ids hs"
  by (induction hs) (auto split: listener.splits)

lemma function_ids_sort_NotFn:
  assumes "hcallback h = NotFn v"
  shows "function_ids (sort_handlers (hs @ [h])) = function_ids (sort_handlers hs)"
proof -
  let ?P = "\<lambda>h. \<exists>i t. hcallback h = Fn i t"
  have "filter ?P (sort_handlers (hs @ [h])) = sort_handlers (filter ?P (hs @ [h]))"
    by (simp add: sort_handlers_def filter_sort)
  also have "\<dots> = sort_handlers (filter ?P hs)"
    using assms by simp
  also have "\<dots> = filter ?P (sort_handlers hs)"
    by (simp add: sort_handlers_def filter_sort)
  finally have "function_ids (filter ?P (sort_handlers (hs @ [h]))) =
                function_ids (filter ?P (sort_handlers hs))"
    by simp
  then show ?thesis by (simp only: function_ids_filter)
qed

text \<open>
  Claim C3. An \<^verbatim>\<open>emit\<close> delivers the envelope first to the persistent handlers of the
  event name, then to its once handlers, each group sorted by descending priority with
  ties left in insertion order (the sort is stable and only permutes the handlers), and
  afterwards the once registry has no entry for the name, whatever it held before; the
  persistent registry is unchanged.
\<close>

theorem emit_priority_order:
  "bus_added b (EventBus_emit b e d src now) =
     concat (map (delivery_trace e (make_envelope e d src now))
       (sort_handlers (handlers_of (events b) e) @ sort_handlers (handlers_of (onceEvents b) e)))
   \<and> sorted (map (\<lambda>h. - priority h) (sort_handlers hs))
   \<and> filter (\<lambda>h. priority h = p) (sort_handlers hs) = filter (\<lambda>h. priority h = p) hs
   \<and> mset (sort_handlers hs) = mset hs
   \<and> onceEvents (EventBus_emit b e d src now) e = None
   \<and> events (EventBus_emit b e d src now) = events b"
proof -
  have "onceEvents (EventBus_emit b e d src now) e = None"
    by (simp add: emit_eq)
  moreover have "events (EventBus_emit b e d src now) = events b"
    by (simp add: emit_eq)
  moreover have "mset (sort_handlers hs) = mset hs"
    by (simp add: sort_handlers_def)
  ultimately show ?thesis
    using bus_added_emit sort_handlers_sorted sort_handlers_stable by blast
qed

lemma make_envelope_fields:
  "make_envelope e d src now =
     \<lparr>ev_type = e, ev_data = (if d = Undefined then Null else d), ev_timestamp = now,
      ev_source = (if truthy src then src else Str ''unknown'')\<rparr>"
  by (simp add: make_envelope_def)

text \<open>
  Claim C8, as amended. Over two emissions of \<open>e\<close> after \<^verbatim>\<open>once(e, cb)\<close>, the
  function \<open>cb\<close> is called with the envelope of the first emission (its type \<open>e\<close>, its
  data or null, its time, its source or \<^verbatim>\<open>unknown\<close>) once for this registration,
  once for every earlier once registration of \<open>cb\<close> under \<open>e\<close> and once for every
  \<^verbatim>\<open>on\<close> registration of \<open>cb\<close> under \<open>e\<close>, and with the envelope of the second
  emission once for every \<^verbatim>\<open>on\<close> registration. So when \<open>cb\<close> has no other
  registration under \<open>e\<close>, it is called exactly once, with the data of the first
  emission, and the second emission does not call it.
\<close>

theorem once_registration_fires_once:
  "filter (is_invoked i)
     (bus_added b
       (EventBus_emit (EventBus_emit (EventBus_once b e (Fn i t) opts) e d1 src1 now1)
          e d2 src2 now2))
   = replicate
       (Suc (count_list (function_ids (handlers_of (events b) e)) i +
             count_list (function_ids (handlers_of (onceEvents b) e)) i))
       (Invoked i \<lparr>ev_type = e, ev_data = (if d1 = Undefined then Null else d1),
                   ev_timestamp = now1,
                   ev_source = (if truthy src1 then src1 else Str ''unknown'')\<rparr>)
     @ replicate (count_list (function_ids (handlers_of (events b) e)) i)
       (Invoked i \<lparr>ev_type = e, ev_data = (if d2 = Undefined then Null else d2),
                   ev_timestamp = now2,
                   ev_source = (if truthy src2 then src2 else Str ''unknown'')\<rparr>)
   \<and> (i \<notin> set (function_ids (handlers_of (events b) e)) \<and>
      i \<notin> set (function_ids (handlers_of (onceEvents b) e)) \<longrightarrow>
        filter (is_invoked i)
          (bus_added b
            (EventBus_emit (EventBus_emit (EventBus_once b e (Fn i t) opts) e d1 src1 now1)
               e d2 src2 now2))
        = [Invoked i \<lparr>ev_type = e, ev_data = (if d1 = Undefined then Null else d1),
                       ev_timestamp = now1,
                       ev_source = (if truthy src1 then src1 else Str ''unknown'')\<rparr>]
        \<and> filter (is_invoked i)
          (bus_added (EventBus_emit (EventBus_once b e (Fn i t) opts) e d1 src1 now1)
            (EventBus_emit (EventBus_emit (EventBus_once b e (Fn i t) opts) e d1 src1 now1)
               e d2 src2 now2))
        = [])"
proof -
  let ?b1 = "EventBus_once b e (Fn i t) opts"
  let ?b2 = "EventBus_emit ?b1 e d1 src1 now1"
  let ?b3 = "EventBus_emit ?b2 e d2 src2 now2"
  let ?p = "count_list (function_ids (handlers_of (events b) e)) i"
  let ?o = "count_list (function_ids (handlers_of (onceEvents b) e)) i"
  let ?e1 = "\<lparr>ev_type = e, ev_data = (if d1 = Undefined then Null else d1),
                   ev_timestamp = now1,
                   ev_source = (if truthy src1 then src1 else Str ''unknown'')\<rparr>"
  let ?e2 = "\<lparr>ev_type = e, ev_data = (if d2 = Undefined then Null else d2),
                   ev_timestamp = now2,
                   ev_source = (if truthy src2 then src2 else Str ''unknown'')\<rparr>"
  have ev: "handlers_of (events ?b1) e = handlers_of (events b) e"
    by (simp add: EventBus_once_def)
  have on: "handlers_of (onceEvents ?b1) e =
              handlers_of (onceEvents b) e @ [mk_handler (Fn i t) opts True]"
    by (simp add: EventBus_once_def handlers_of_def)
  have c2: "count_list (function_ids (handlers_of (onceEvents b) e @ [mk_handler (Fn i t) opts True])) i
              = Suc ?o"
    by (simp add: function_ids_append mk_handler_def)
  have first: "filter (is_invoked i) (bus_added ?b1 ?b2) = replicate (Suc (?p + ?o)) (Invoked i ?e1)"
    by (simp add: bus_added_emit filter_invoked_deliveries count_function_ids_sort ev on c2
          make_envelope_fields replicate_add [symmetric] del: function_ids.simps replicate.simps)
  have ev2: "handlers_of (events ?b2) e = handlers_of (events b) e"
    by (simp add: emit_eq EventBus_once_def)
  have on2: "handlers_of (onceEvents ?b2) e = []"
    by (simp add: emit_eq handlers_of_def)
  have sn: "sort_handlers [] = []"
    by (simp add: sort_handlers_def)
  have second: "filter (is_invoked i) (bus_added ?b2 ?b3) = replicate ?p (Invoked i ?e2)"
    by (simp add: bus_added_emit filter_invoked_deliveries count_function_ids_sort ev2 on2 sn
          make_envelope_fields)
  have split: "bus_added b ?b3 = bus_added ?b1 ?b2 @ bus_added ?b2 ?b3"
    by (simp add: bus_added_def emit_eq EventBus_once_def)
  have general: "filter (is_invoked i) (bus_added b ?b3) =
      replicate (Suc (?p + ?o)) (Invoked i ?e1) @ replicate ?p (Invoked i ?e2)"
    using first second split by simp
  have special: "filter (is_invoked i) (bus_added b ?b3) = [Invoked i ?e1]
      \<and> filter (is_invoked i) (bus_added ?b2 ?b3) = []"
    if "i \<notin> set (function_ids (handlers_of (events b) e))"
      and "i \<notin> set (function_ids (handlers_of (onceEvents b) e))"
  proof -
    have "?p = 0" using that(1) by (simp add: count_list_0_iff)
    moreover have "?o = 0" using that(2) by (simp add: count_list_0_iff)
    ultimately show ?thesis using general second by simp
  qed
  show ?thesis using general special by blast
qed

theorem once_registration_fires_once_witness:
  "1 \<notin> set (function_ids (handlers_of (events new_EventBus) ''test-event''))
   \<and> 1 \<notin> set (function_ids (handlers_of (onceEvents new_EventBus) ''test-event''))
   \<and> filter (is_invoked 1)
       (bus_added new_EventBus
         (EventBus_emit
           (EventBus_emit (EventBus_once new_EventBus ''test-event'' (Fn 1 calm) no_on_options)
              ''test-event'' (Str ''first'') Undefined 10)
           ''test-event'' (Str ''second'') Undefined 20))
     = [Invoked 1 \<lparr>ev_type = ''test-event'', ev_data = Str ''first'', ev_timestamp = 10,
                    ev_source = Str ''unknown''\<rparr>]"
proof -
  have h1: "1 \<notin> set (function_ids (handlers_of (events new_EventBus) ''test-event''))"
    by (simp add: new_EventBus_def handlers_of_def)
  have h2: "1 \<notin> set (function_ids (handlers_of (onceEvents new_EventBus) ''test-event''))"
    by (simp add: new_EventBus_def handlers_of_def)
  show ?thesis
    using once_registration_fires_once [of 1 new_EventBus "''test-event''" calm no_on_options
        "Str ''first''" Undefined 10 "Str ''second''" Undefined 20] h1 h2
    by simp
qed

text \<open>
  Claim C8 as it stands fails: when the same function is also registered by
  \<^verbatim>\<open>on\<close>, two emissions after \<^verbatim>\<open>once\<close> call it three times, the last time with
  the data of the second emission.
\<close>

theorem once_and_on_listener_called_thrice:
  "filter (is_invoked 1)
     (bus_added both_registered_bus
       (EventBus_emit
         (EventBus_emit both_registered_bus ''test-event'' (Str ''first'') Undefined 10)
         ''test-event'' (Str ''second'') Undefined 20))
   = [Invoked 1 \<lparr>ev_type = ''test-event'', ev_data = Str ''first'', ev_timestamp = 10,
                  ev_source = Str ''unknown''\<rparr>,
      Invoked 1 \<lparr>ev_type = ''test-event'', ev_data = Str ''first'', ev_timestamp = 10,
                  ev_source = Str ''unknown''\<rparr>,
      Invoked 1 \<lparr>ev_type = ''test-event'', ev_data = Str ''second'', ev_timestamp = 20,
                  ev_source = Str ''unknown''\<rparr>]"
  by code_simp

text \<open>
  Claim C9. \<^verbatim>\<open>on\<close> raises for a callback that is not a function, while
  \<^verbatim>\<open>once\<close> registers it without a check and logs nothing; the function it
  returns removes one handler again. The fault shows at the next emission only: no
  further listener is called, one more error is logged than without the registration,
  and the once registry is cleared as usual.
\<close>

theorem once_accepts_non_function:
  "EventBus_on b e (NotFn v) opts = Inl (Error ''Event callback must be a function'')
   \<and> handlers_of (onceEvents (EventBus_once b e (NotFn v) opts)) e =
       handlers_of (onceEvents b) e @ [mk_handler (NotFn v) opts True]
   \<and> bus_log (EventBus_once b e (NotFn v) opts) = bus_log b
   \<and> length (handlers_of (onceEvents
         (EventBus_offOnce (EventBus_once b e (NotFn v) opts) e (NotFn v))) e) =
       length (handlers_of (onceEvents b) e)
   \<and> invoked_of (bus_added (EventBus_once b e (NotFn v) opts)
         (EventBus_emit (EventBus_once b e (NotFn v) opts) e d src now)) =
       invoked_of (bus_added b (EventBus_emit b e d src now))
   \<and> errors_of (bus_added (EventBus_once b e (NotFn v) opts)
         (EventBus_emit (EventBus_once b e (NotFn v) opts) e d src now)) =
       Suc (errors_of (bus_added b (EventBus_emit b e d src now)))
   \<and> onceEvents (EventBus_emit (EventBus_once b e (NotFn v) opts) e d src now) e = None"
proof -
  let ?b1 = "EventBus_once b e (NotFn v) opts"
  let ?h = "mk_handler (NotFn v) opts True"
  have a: "EventBus_on b e (NotFn v) opts = Inl (Error ''Event callback must be a function'')"
    by (simp add: EventBus_on_def)
  have on: "handlers_of (onceEvents ?b1) e = handlers_of (onceEvents b) e @ [?h]"
    by (simp add: EventBus_once_def handlers_of_def)
  have ev: "handlers_of (events ?b1) e = handlers_of (events b) e"
    by (simp add: EventBus_once_def)
  have lg: "bus_log ?b1 = bus_log b"
    by (simp add: EventBus_once_def)
  have raw: "onceEvents ?b1 e = Some (handlers_of (onceEvents b) e @ [?h])"
    by (simp add: EventBus_once_def)
  let ?R = "remove_first (\<lambda>h. same_listener (hcallback h) (NotFn v))
              (handlers_of (onceEvents b) e @ [?h])"
  have "\<exists>x \<in> set (handlers_of (onceEvents b) e @ [?h]). same_listener (hcallback x) (NotFn v)"
    by (simp add: mk_handler_def)
  then have len: "Suc (length ?R) = length (handlers_of (onceEvents b) e @ [?h])"
    by (rule length_remove_first)
  have "handlers_of (onceEvents (EventBus_offOnce ?b1 e (NotFn v))) e = ?R"
    by (simp add: EventBus_offOnce_def remove_handler_def raw Let_def)
       (simp add: handlers_of_def)
  then have thunk: "length (handlers_of (onceEvents (EventBus_offOnce ?b1 e (NotFn v))) e) =
                 length (handlers_of (onceEvents b) e)"
    using len by simp
  have fi: "function_ids (sort_handlers (handlers_of (onceEvents b) e @ [?h])) =
            function_ids (sort_handlers (handlers_of (onceEvents b) e))"
    by (simp add: function_ids_sort_NotFn mk_handler_def)
  have inv: "invoked_of (bus_added ?b1 (EventBus_emit ?b1 e d src now)) =
               invoked_of (bus_added b (EventBus_emit b e d src now))"
    by (simp add: bus_added_emit invoked_of_append invoked_of_deliveries ev on fi
        function_ids_append del: function_ids.simps)
  have th: "throws_on (make_envelope e d src now) ?h"
    by (simp add: throws_on_def mk_handler_def)
  have err: "errors_of (bus_added ?b1 (EventBus_emit ?b1 e d src now)) =
               Suc (errors_of (bus_added b (EventBus_emit b e d src now)))"
    by (simp add: bus_added_emit errors_of_append errors_of_deliveries ev on th
        length_filter_sort_handlers)
  have clr: "onceEvents (EventBus_emit ?b1 e d src now) e = None"
    by (simp add: emit_eq)
  show ?thesis using a on lg thunk inv err clr by blast
qed


section \<open>Properties of the state store\<close>

subsection \<open>What the operations leave unchanged\<close>

lemma tree_only_refl: "tree_only s s"
  by (simp add: tree_only_def)

lemma tree_only_trans: "tree_only s s' \<Longrightarrow> tree_only s' s'' \<Longrightarrow> tree_only s s''"
  by (simp add: tree_only_def)

lemma tree_only_alloc: "tree_only s (snd (alloc s ob))"
  by (simp add: tree_only_def alloc_def)

lemma tree_only_shallow_copy: "tree_only s (snd (shallow_copy s))"
  by (simp add: shallow_copy_def tree_only_alloc)

lemma tree_only_descend: "tree_only (snd as) (snd (descend as k))"
  by (cases as) (simp add: descend_def tree_only_def alloc_def split: jsval.splits)

lemma tree_only_foldl_descend: "tree_only (snd as) (snd (foldl descend as ks))"
proof (induction ks arbitrary: as)
  case Nil
  show ?case by (simp add: tree_only_refl)
next
  case (Cons k ks)
  have "tree_only (snd as) (snd (descend as k))" by (rule tree_only_descend)
  moreover have "tree_only (snd (descend as k)) (snd (foldl descend (descend as k) ks))"
    by (rule Cons.IH)
  ultimately show ?case by (simp add: tree_only_trans)
qed

lemma tree_only_setNestedValue: "tree_only s (setNestedValue s path v)"
  using tree_only_foldl_descend [of "(state s, s)" "butlast (split_dot path)"]
  by (simp add: setNestedValue_def Let_def case_prod_beta tree_only_def)

lemma tree_only_fold_writes:
  "tree_only s (fold (\<lambda>(k, x) st. setNestedValue st k x) kvs s)"
proof (induction kvs arbitrary: s)
  case Nil
  show ?case by (simp add: tree_only_refl)
next
  case (Cons kv kvs)
  obtain k x where kv: "kv = (k, x)" by (cases kv)
  have "tree_only s (setNestedValue s k x)" by (rule tree_only_setNestedValue)
  moreover have "tree_only (setNestedValue s k x)
      (fold (\<lambda>(k, x) st. setNestedValue st k x) kvs (setNestedValue s k x))"
    by (rule Cons.IH)
  ultimately show ?case by (simp add: kv tree_only_trans)
qed

lemma tree_only_apply_writes: "tree_only s (apply_writes s key v)"
  by (cases key) (simp_all add: apply_writes_def tree_only_setNestedValue tree_only_fold_writes)

lemma tree_only_addToHistory: "tree_only s (addToHistory s old new)"
  by (simp add: addToHistory_def tree_only_def Let_def)

lemma tree_only_setState_apply: "tree_only s (setState_apply s key v)"
proof -
  let ?s1 = "snd (shallow_copy s)"
  let ?s2 = "apply_writes ?s1 key v"
  let ?s3 = "snd (shallow_copy ?s2)"
  have "tree_only s ?s1" by (rule tree_only_shallow_copy)
  moreover have "tree_only ?s1 ?s2" by (rule tree_only_apply_writes)
  moreover have "tree_only ?s2 ?s3" by (rule tree_only_shallow_copy)
  moreover have "tree_only ?s3 (addToHistory ?s3 (fst (shallow_copy s)) (fst (shallow_copy ?s2)))"
    by (rule tree_only_addToHistory)
  ultimately have "tree_only s (addToHistory ?s3 (fst (shallow_copy s)) (fst (shallow_copy ?s2)))"
    by (blast intro: tree_only_trans)
  then show ?thesis by (simp add: setState_apply_def Let_def case_prod_beta)
qed

lemma tree_only_getState: "tree_only s (snd (getState s key))"
  using tree_only_shallow_copy [of s]
  by (simp add: getState_def case_prod_beta tree_only_refl)

lemma tree_only_getStates: "tree_only s (snd (getStates s deps))"
proof (induction deps arbitrary: s)
  case Nil
  show ?case by (simp add: tree_only_refl)
next
  case (Cons d ds)
  have "tree_only s (snd (getState s d))" by (rule tree_only_getState)
  moreover have "tree_only (snd (getState s d)) (snd (getStates (snd (getState s d)) ds))"
    by (rule Cons.IH)
  ultimately show ?case by (simp add: case_prod_beta tree_only_trans)
qed

lemma tree_only_updateComputed: "tree_only s (updateComputed s f deps t)"
  using tree_only_getStates [of s deps]
    tree_only_setState_apply [of "snd (getStates s deps)" "Path t" "f (fst (getStates s deps))"]
  by (simp add: updateComputed_def case_prod_beta Let_def tree_only_trans)

lemma notify_one_log:
  "log (notify_one key v sub s) = log s @ notification_trace key v sub"
  using tree_only_updateComputed
  by (cases "callback sub")
     (simp_all add: notify_one_def invoke_def call_callback_def notification_trace_def
        console_error_def delete_subscription_def tree_only_def log_call_def)

lemma notify_one_collectors: "collectors (notify_one key v sub s) = collectors s"
  using tree_only_updateComputed
  by (cases "callback sub")
     (simp_all add: notify_one_def invoke_def call_callback_def
        console_error_def delete_subscription_def tree_only_def log_call_def)

lemma notify_one_subscribers:
  "q \<noteq> key \<Longrightarrow> subscribers (notify_one key v sub s) q = subscribers s q"
  using tree_only_updateComputed
  by (cases "callback sub")
     (simp_all add: notify_one_def invoke_def call_callback_def
        console_error_def delete_subscription_def tree_only_def log_call_def)

lemma fold_notify_one_log:
  "log (fold (notify_one key v) subs s) = log s @ concat (map (notification_trace key v) subs)"
  by (induction subs arbitrary: s) (simp_all add: notify_one_log)

lemma fold_notify_one_collectors:
  "collectors (fold (notify_one key v) subs s) = collectors s"
  by (induction subs arbitrary: s) (simp_all add: notify_one_collectors)

lemma fold_notify_one_subscribers:
  "q \<noteq> key \<Longrightarrow> subscribers (fold (notify_one key v) subs s) q = subscribers s q"
  by (induction subs arbitrary: s) (simp_all add: notify_one_subscribers)

lemma notifySubscribers_log:
  "log (notifySubscribers s key) =
     log s @ concat (map (notification_trace key (fst (getState s key))) (bucket s key))"
  using tree_only_getState [of s key]
  by (cases "subscribers s key")
     (simp_all add: notifySubscribers_def bucket_def case_prod_beta Let_def cleanup_def
        fold_notify_one_log tree_only_def)

lemma notifySubscribers_collectors: "collectors (notifySubscribers s key) = collectors s"
  using tree_only_getState [of s key]
  by (cases "subscribers s key")
     (simp_all add: notifySubscribers_def case_prod_beta Let_def cleanup_def
        fold_notify_one_collectors tree_only_def)

lemma notifySubscribers_subscribers:
  "q \<noteq> key \<Longrightarrow> subscribers (notifySubscribers s key) q = subscribers s q"
  using tree_only_getState [of s key]
  by (cases "subscribers s key")
     (simp_all add: notifySubscribers_def case_prod_beta Let_def cleanup_def
        fold_notify_one_subscribers tree_only_def)

subsection \<open>Faults in callbacks\<close>

lemma added_notifySubscribers:
  "added s (notifySubscribers s key) =
     concat (map (notification_trace key (fst (getState s key))) (bucket s key))"
  by (simp add: added_def notifySubscribers_log)

lemma called_of_append: "called_of (xs @ ys) = called_of xs @ called_of ys"
  by (induction xs rule: called_of.induct) simp_all

lemma logged_errors_append: "logged_errors (xs @ ys) = logged_errors xs + logged_errors ys"
  by (induction xs rule: logged_errors.induct) simp_all

lemma called_of_notifications:
  "called_of (concat (map (notification_trace key v) subs)) =
     map (\<lambda>x. ref_of (callback x)) (filter (\<lambda>x. is_function (callback x)) subs)"
  by (induction subs)
     (auto simp: called_of_append notification_trace_def split: callback.splits)

lemma logged_errors_notifications:
  "logged_errors (concat (map (notification_trace key v) subs)) =
     length (filter (\<lambda>x. \<not> returns_normally key v x) subs)"
  by (induction subs)
     (auto simp: logged_errors_append notification_trace_def returns_normally_def
        split: callback.splits)

text \<open>
  Claim C6. In an \<^verbatim>\<open>emit\<close> every function listener of the event name is called,
  in the order of the dispatch, whichever of them throw; each throwing one leaves one
  logged error, and \<^verbatim>\<open>emit\<close> itself returns. The same holds for a notification
  of the state store: every function callback subscribed to the path is called, and each
  one that throws leaves one logged error.
\<close>

theorem throwing_callback_is_isolated:
  "invoked_of (bus_added b (EventBus_emit b e d src now)) =
     function_ids (sort_handlers (handlers_of (events b) e)) @
     function_ids (sort_handlers (handlers_of (onceEvents b) e))
   \<and> errors_of (bus_added b (EventBus_emit b e d src now)) =
       length (filter (throws_on (make_envelope e d src now)) (handlers_of (events b) e)) +
       length (filter (throws_on (make_envelope e d src now)) (handlers_of (onceEvents b) e))
   \<and> called_of (added s (notifySubscribers s key)) =
       map (\<lambda>x. ref_of (callback x)) (filter (\<lambda>x. is_function (callback x)) (bucket s key))
   \<and> logged_errors (added s (notifySubscribers s key)) =
       length (filter (\<lambda>x. \<not> returns_normally key (fst (getState s key)) x) (bucket s key))"
proof -
  have "invoked_of (bus_added b (EventBus_emit b e d src now)) =
     function_ids (sort_handlers (handlers_of (events b) e)) @
     function_ids (sort_handlers (handlers_of (onceEvents b) e))"
    by (simp add: bus_added_emit invoked_of_append invoked_of_deliveries)
  moreover have "errors_of (bus_added b (EventBus_emit b e d src now)) =
       length (filter (throws_on (make_envelope e d src now)) (handlers_of (events b) e)) +
       length (filter (throws_on (make_envelope e d src now)) (handlers_of (onceEvents b) e))"
    by (simp add: bus_added_emit errors_of_append errors_of_deliveries
          length_filter_sort_handlers)
  moreover have "called_of (added s (notifySubscribers s key)) =
       map (\<lambda>x. ref_of (callback x)) (filter (\<lambda>x. is_function (callback x)) (bucket s key))"
    by (simp add: added_notifySubscribers called_of_notifications)
  moreover have "logged_errors (added s (notifySubscribers s key)) =
       length (filter (\<lambda>x. \<not> returns_normally key (fst (getState s key)) x) (bucket s key))"
    by (simp add: added_notifySubscribers logged_errors_notifications)
  ultimately show ?thesis by blast
qed

subsection \<open>Exact paths\<close>

lemma trace_path_notification:
  "list_all (\<lambda>e. trace_path e = k) (notification_trace k v sub)"
  by (simp add: notification_trace_def split: callback.splits)

lemma trace_path_notifications:
  "list_all (\<lambda>e. trace_path e = k) (concat (map (notification_trace k v) subs))"
  by (induction subs) (simp_all add: trace_path_notification)

lemma this_notifySubscribers_log:
  "\<exists>Y. log (this_notifySubscribers st k) = log st @ Y \<and> list_all (\<lambda>e. trace_path e = k) Y"
proof (cases "collectors st")
  case Nil
  then show ?thesis
    using trace_path_notifications
    by (auto simp: this_notifySubscribers_def notifySubscribers_log)
next
  case (Cons c cs)
  then show ?thesis by (simp add: this_notifySubscribers_def)
qed

lemma this_notifySubscribers_subscribers:
  "q \<noteq> k \<Longrightarrow> subscribers (this_notifySubscribers st k) q = subscribers st q"
  by (cases "collectors st")
     (simp_all add: this_notifySubscribers_def notifySubscribers_subscribers)

lemma fold_this_notifySubscribers_log:
  "\<exists>Y. log (fold (\<lambda>k st. this_notifySubscribers st k) ks st) = log st @ Y \<and>
       list_all (\<lambda>e. trace_path e \<in> set ks) Y"
proof (induction ks arbitrary: st)
  case Nil
  show ?case by simp
next
  case (Cons k ks)
  obtain Y where Y: "log (this_notifySubscribers st k) = log st @ Y"
      "list_all (\<lambda>e. trace_path e = k) Y"
    using this_notifySubscribers_log by blast
  obtain Z where Z: "log (fold (\<lambda>k st. this_notifySubscribers st k) ks (this_notifySubscribers st k))
        = log (this_notifySubscribers st k) @ Z" "list_all (\<lambda>e. trace_path e \<in> set ks) Z"
    using Cons.IH by blast
  have "list_all (\<lambda>e. trace_path e \<in> set (k # ks)) (Y @ Z)"
    using Y(2) Z(2) by (auto simp: list_all_iff)
  then show ?case using Y(1) Z(1) by auto
qed

lemma fold_this_notifySubscribers_subscribers:
  "q \<notin> set ks \<Longrightarrow>
     subscribers (fold (\<lambda>k st. this_notifySubscribers st k) ks st) q = subscribers st q"
  by (induction ks arbitrary: st) (simp_all add: this_notifySubscribers_subscribers)

lemma setState_log:
  "\<exists>Y. log (setState s key v silent) = log s @ Y \<and>
       list_all (\<lambda>e. trace_path e \<in> set (written_paths key)) Y"
proof -
  let ?s1 = "setState_apply s key v"
  have l1: "log ?s1 = log s"
    using tree_only_setState_apply [of s key v] by (simp add: tree_only_def)
  have "setState s key v silent =
          (if silent then ?s1
           else fold (\<lambda>k st. this_notifySubscribers st k) (written_paths key) ?s1)"
    by (cases key) (simp_all add: setState_def Let_def)
  then show ?thesis
    using fold_this_notifySubscribers_log [of "written_paths key" ?s1] l1 by auto
qed

lemma setState_subscribers:
  assumes "q \<notin> set (written_paths key)"
  shows "subscribers (setState s key v silent) q = subscribers s q"
proof -
  let ?s1 = "setState_apply s key v"
  have l1: "subscribers ?s1 = subscribers s"
    using tree_only_setState_apply [of s key v] by (simp add: tree_only_def)
  have "setState s key v silent =
          (if silent then ?s1
           else fold (\<lambda>k st. this_notifySubscribers st k) (written_paths key) ?s1)"
    by (cases key) (simp_all add: setState_def Let_def)
  then show ?thesis
    using fold_this_notifySubscribers_subscribers [OF assms, of ?s1] l1 by auto
qed

subsection \<open>Notifications outside a batch\<close>

lemma setState_apply_collectors: "collectors (setState_apply s key v) = collectors s"
  using tree_only_setState_apply [of s key v] by (simp add: tree_only_def)

lemma setState_apply_log: "log (setState_apply s key v) = log s"
  using tree_only_setState_apply [of s key v] by (simp add: tree_only_def)

lemma setState_apply_subscribers: "subscribers (setState_apply s key v) = subscribers s"
  using tree_only_setState_apply [of s key v] by (simp add: tree_only_def)

lemma this_notifySubscribers_direct:
  "collectors st = [] \<Longrightarrow> this_notifySubscribers st k = notifySubscribers st k"
  by (simp add: this_notifySubscribers_def)

lemma fold_this_notifySubscribers_direct:
  "collectors st = [] \<Longrightarrow>
     fold (\<lambda>k st. this_notifySubscribers st k) ks st = fold (\<lambda>k st. notifySubscribers st k) ks st"
  by (induction ks arbitrary: st)
     (simp_all add: this_notifySubscribers_direct notifySubscribers_collectors)

lemma fold_notifySubscribers_log:
  "log (fold (\<lambda>k st. notifySubscribers st k) ks st) = log st @ notifications ks st"
  by (induction ks arbitrary: st) (simp_all add: notifySubscribers_log)

lemma fold_notifySubscribers_collectors:
  "collectors (fold (\<lambda>k st. notifySubscribers st k) ks st) = collectors st"
  by (induction ks arbitrary: st) (simp_all add: notifySubscribers_collectors)

lemma setState_silent: "setState s key v True = setState_apply s key v"
  by (simp add: setState_def)

lemma setState_path_direct:
  "collectors s = [] \<Longrightarrow>
     setState s (Path p) v False = notifySubscribers (setState_apply s (Path p) v) p"
  by (simp add: setState_def this_notifySubscribers_direct setState_apply_collectors)

subsection \<open>Once subscriptions\<close>

lemma bucket_cong: "subscribers s' = subscribers s \<Longrightarrow> bucket s' key = bucket s key"
  by (simp add: bucket_def)

lemma updateComputed_subscribers: "subscribers (updateComputed s f deps t) = subscribers s"
  using tree_only_updateComputed [of s f deps t] by (simp add: tree_only_def)

lemma bucket_notify_one:
  "bucket (notify_one key v sub st) key =
     (if once sub \<and> returns_normally key v sub
      then filter (\<lambda>x. sid x \<noteq> sid sub) (bucket st key) else bucket st key)"
proof (cases "callback sub")
  case (Extern i t)
  then show ?thesis
    by (simp add: notify_one_def invoke_def call_callback_def returns_normally_def
          console_error_def delete_subscription_def log_call_def bucket_def)
next
  case (UpdateComputed i f deps t)
  have "bucket (updateComputed (log_call st (CompRef i) v key) f deps t) key = bucket st key"
    by (rule bucket_cong) (simp add: updateComputed_subscribers log_call_def)
  then show ?thesis
    using UpdateComputed
    by (simp add: notify_one_def invoke_def call_callback_def returns_normally_def
          delete_subscription_def)
       (simp add: bucket_def)
next
  case (NonFunction x)
  then show ?thesis
    by (simp add: notify_one_def invoke_def call_callback_def returns_normally_def
          console_error_def bucket_def)
qed

lemma bucket_fold_notify_one:
  "bucket (fold (notify_one key v) subs st) key =
     filter (\<lambda>x. sid x \<notin> sid ` {y \<in> set subs. once y \<and> returns_normally key v y})
       (bucket st key)"
proof (induction subs arbitrary: st)
  case Nil
  show ?case by simp
next
  case (Cons sub subs)
  show ?case
    by (simp add: Cons.IH bucket_notify_one) (auto intro: filter_cong)
qed

lemma bucket_cleanup: "bucket (cleanup key s) key = bucket s key"
  by (simp add: cleanup_def bucket_def)

lemma getState_subscribers: "subscribers (snd (getState s key)) = subscribers s"
  using tree_only_getState [of s key] by (simp add: tree_only_def)

lemma bucket_notifySubscribers:
  "bucket (notifySubscribers s key) key =
     filter (\<lambda>x. sid x \<notin> sid ` {y \<in> set (bucket s key).
                 once y \<and> returns_normally key (fst (getState s key)) y})
       (bucket s key)"
proof (cases "subscribers s key")
  case None
  then show ?thesis by (simp add: notifySubscribers_def bucket_def)
next
  case (Some subs)
  have b: "bucket (snd (getState s key)) key = subs"
    using Some by (simp add: bucket_def getState_subscribers)
  show ?thesis
    using Some b
    by (simp add: notifySubscribers_def case_prod_beta Let_def bucket_cleanup
          bucket_fold_notify_one)
       (simp add: bucket_def)
qed

lemma stays_iff:
  assumes "sub \<in> set subs" and "distinct (map sid subs)"
  shows "(sub \<in> set (filter (\<lambda>x. sid x \<notin> sid ` {y \<in> set subs. P y}) subs)) = (\<not> P sub)"
proof -
  have "\<And>y. y \<in> set subs \<Longrightarrow> sid y = sid sub \<Longrightarrow> y = sub"
    using assms by (meson distinct_map inj_onD)
  then show ?thesis using assms(1) by auto
qed

text \<open>
  Claim C10. Outside a batch, a once subscription with a host callback, in a set whose
  subscriptions are distinct objects, is still subscribed after a write to its path
  exactly when its callback threw in the notification; it is called in that notification,
  and when it threw it is called again by the next write to the path.
\<close>

theorem throwing_once_subscriber_stays:
  assumes "collectors s = []"
    and "sub \<in> set (bucket s p)"
    and "distinct (map sid (bucket s p))"
    and "once sub"
    and "callback sub = Extern i throws"
  shows "(sub \<in> set (bucket (setState s (Path p) v False) p)) =
           throws (fst (getState (setState_apply s (Path p) v) p)) p
       \<and> Called (ExtRef i) (fst (getState (setState_apply s (Path p) v) p)) p
           \<in> set (added s (setState s (Path p) v False))
       \<and> (throws (fst (getState (setState_apply s (Path p) v) p)) p \<longrightarrow>
            Called (ExtRef i)
              (fst (getState (setState_apply (setState s (Path p) v False) (Path p) v') p)) p
            \<in> set (added (setState s (Path p) v False)
                  (setState (setState s (Path p) v False) (Path p) v' False)))"
proof -
  let ?w = "setState_apply s (Path p) v"
  let ?val = "fst (getState ?w p)"
  let ?s1 = "setState s (Path p) v False"
  have s1: "?s1 = notifySubscribers ?w p"
    using assms(1) by (rule setState_path_direct)
  have bw: "bucket ?w p = bucket s p"
    by (rule bucket_cong) (rule setState_apply_subscribers)
  have rn: "returns_normally p ?val sub = (\<not> throws ?val p)"
    using assms(5) by (simp add: returns_normally_def)
  have "(sub \<in> set (bucket ?s1 p)) = (\<not> (once sub \<and> returns_normally p ?val sub))"
    unfolding s1 bucket_notifySubscribers bw
    using assms(2,3) by (rule stays_iff)
  then have stay: "(sub \<in> set (bucket ?s1 p)) = throws ?val p"
    using assms(4) rn by simp
  have tr: "\<And>st x. sub \<in> set (bucket st p) \<Longrightarrow>
      Called (ExtRef i) x p \<in> set (concat (map (notification_trace p x) (bucket st p)))"
    using assms(5) by (force simp: notification_trace_def)
  have first: "Called (ExtRef i) ?val p \<in> set (added s ?s1)"
    using tr [of ?w ?val] assms(2)
    by (simp add: s1 added_def notifySubscribers_log setState_apply_log bw)
  have c1: "collectors ?s1 = []"
    using assms(1) by (simp add: s1 notifySubscribers_collectors setState_apply_collectors)
  let ?w2 = "setState_apply ?s1 (Path p) v'"
  have s2: "setState ?s1 (Path p) v' False = notifySubscribers ?w2 p"
    using c1 by (rule setState_path_direct)
  have bw2: "bucket ?w2 p = bucket ?s1 p"
    by (rule bucket_cong) (rule setState_apply_subscribers)
  have "sub \<in> set (bucket ?s1 p) \<Longrightarrow>
          Called (ExtRef i) (fst (getState ?w2 p)) p
            \<in> set (added ?s1 (setState ?s1 (Path p) v' False))"
    using tr [of ?w2 "fst (getState ?w2 p)"]
    by (simp add: s2 added_def notifySubscribers_log setState_apply_log bw2)
  then show ?thesis using stay first by blast
qed

theorem throwing_once_subscriber_stays_witness:
  "collectors faulty_once_store = []
   \<and> faulty_once_subscription \<in> set (bucket faulty_once_store ''isLoading'')
   \<and> distinct (map sid (bucket faulty_once_store ''isLoading''))
   \<and> once faulty_once_subscription
   \<and> callback faulty_once_subscription = Extern 1 always_throws
   \<and> faulty_once_subscription
       \<in> set (bucket (setState faulty_once_store (Path ''isLoading'') (Bool True) False)
                ''isLoading'')
   \<and> Called (ExtRef 1)
        (fst (getState (setState_apply
           (setState faulty_once_store (Path ''isLoading'') (Bool True) False)
           (Path ''isLoading'') (Bool False)) ''isLoading'')) ''isLoading''
       \<in> set (added (setState faulty_once_store (Path ''isLoading'') (Bool True) False)
                (setState (setState faulty_once_store (Path ''isLoading'') (Bool True) False)
                   (Path ''isLoading'') (Bool False) False))"
proof -
  have st: "faulty_once_store =
      (new_StateManager 0)\<lparr>subscribers := [''isLoading'' \<mapsto> [faulty_once_subscription]],
                            next_sid := 1\<rparr>"
    by (simp add: faulty_once_store_def subscribe_def faulty_once_subscription_def
          new_StateManager_def bucket_def Let_def)
  have h1: "collectors faulty_once_store = []"
    by (simp add: st new_StateManager_def)
  have b: "bucket faulty_once_store ''isLoading'' = [faulty_once_subscription]"
    by (simp add: st bucket_def)
  have h2: "faulty_once_subscription \<in> set (bucket faulty_once_store ''isLoading'')"
    by (simp add: b)
  have h3: "distinct (map sid (bucket faulty_once_store ''isLoading''))"
    by (simp add: b)
  have h4: "once faulty_once_subscription"
    by (simp add: faulty_once_subscription_def)
  have h5: "callback faulty_once_subscription = Extern 1 always_throws"
    by (simp add: faulty_once_subscription_def)
  show ?thesis
    using throwing_once_subscriber_stays [OF h1 h2 h3 h4 h5, of "Bool True" "Bool False"]
      h1 h2 h3 h4 h5
    by (simp add: always_throws_def)
qed

subsection \<open>The callbacks a write calls\<close>

lemma refs_of_mono: "set xs \<subseteq> set ys \<Longrightarrow> refs_of xs \<subseteq> refs_of ys"
  by (auto simp: refs_of_def)

lemma called_of_notifications_refs:
  "set (called_of (concat (map (notification_trace k v) subs))) \<subseteq> refs_of subs"
  by (auto simp: called_of_notifications refs_of_def)

lemma bucket_notifySubscribers_subset:
  "set (bucket (notifySubscribers st k) k') \<subseteq> set (bucket st k')"
proof (cases "k' = k")
  case True
  then show ?thesis by (simp add: bucket_notifySubscribers)
next
  case False
  then have "bucket (notifySubscribers st k) k' = bucket st k'"
    by (simp add: bucket_def notifySubscribers_subscribers)
  then show ?thesis by simp
qed

lemma bucket_this_notifySubscribers_subset:
  "set (bucket (this_notifySubscribers st k) k') \<subseteq> set (bucket st k')"
  by (cases "collectors st")
     (simp_all add: this_notifySubscribers_def bucket_notifySubscribers_subset,
      simp add: bucket_def)

lemma this_notifySubscribers_called:
  "\<exists>Y. log (this_notifySubscribers st k) = log st @ Y \<and>
       set (called_of Y) \<subseteq> refs_of (bucket st k)"
proof (cases "collectors st")
  case Nil
  then show ?thesis
    using called_of_notifications_refs
    by (auto simp: this_notifySubscribers_def notifySubscribers_log)
next
  case (Cons c cs)
  then show ?thesis by (simp add: this_notifySubscribers_def)
qed

lemma fold_this_notifySubscribers_called:
  "\<exists>Y. log (fold (\<lambda>k st. this_notifySubscribers st k) ks st) = log st @ Y \<and>
       set (called_of Y) \<subseteq> (\<Union>k \<in> set ks. refs_of (bucket st k))"
proof (induction ks arbitrary: st)
  case Nil
  show ?case by simp
next
  case (Cons k ks)
  let ?st = "this_notifySubscribers st k"
  obtain Y where Y: "log ?st = log st @ Y" "set (called_of Y) \<subseteq> refs_of (bucket st k)"
    using this_notifySubscribers_called by blast
  obtain Z where Z: "log (fold (\<lambda>k st. this_notifySubscribers st k) ks ?st) = log ?st @ Z"
      "set (called_of Z) \<subseteq> (\<Union>k \<in> set ks. refs_of (bucket ?st k))"
    using Cons.IH by blast
  have "\<And>k'. refs_of (bucket ?st k') \<subseteq> refs_of (bucket st k')"
    by (rule refs_of_mono) (rule bucket_this_notifySubscribers_subset)
  then have "(\<Union>k \<in> set ks. refs_of (bucket ?st k)) \<subseteq> (\<Union>k \<in> set ks. refs_of (bucket st k))"
    by blast
  then have "set (called_of Z) \<subseteq> (\<Union>k \<in> set ks. refs_of (bucket st k))"
    using Z(2) by (rule order_trans [rotated])
  then have "set (called_of Y) \<union> set (called_of Z) \<subseteq>
      refs_of (bucket st k) \<union> (\<Union>k \<in> set ks. refs_of (bucket st k))"
    using Y(2) by blast
  then have "set (called_of (Y @ Z)) \<subseteq> (\<Union>k \<in> set (k # ks). refs_of (bucket st k))"
    by (simp add: called_of_append)
  then show ?case using Y(1) Z(1) by auto
qed

lemma setState_called:
  "set (called_of (added s (setState s key v silent))) \<subseteq>
     (\<Union>k \<in> set (written_paths key). refs_of (bucket s k))"
proof -
  let ?s1 = "setState_apply s key v"
  have l1: "log ?s1 = log s"
    by (rule setState_apply_log)
  have b1: "\<And>k. bucket ?s1 k = bucket s k"
    by (rule bucket_cong) (rule setState_apply_subscribers)
  have eq: "setState s key v silent =
          (if silent then ?s1
           else fold (\<lambda>k st. this_notifySubscribers st k) (written_paths key) ?s1)"
    by (cases key) (simp_all add: setState_def Let_def)
  obtain Y where Y: "log (fold (\<lambda>k st. this_notifySubscribers st k) (written_paths key) ?s1)
        = log ?s1 @ Y"
      "set (called_of Y) \<subseteq> (\<Union>k \<in> set (written_paths key). refs_of (bucket ?s1 k))"
    using fold_this_notifySubscribers_called by blast
  show ?thesis
  proof (cases silent)
    case True
    then have "setState s key v silent = ?s1"
      by (simp add: setState_silent)
    then show ?thesis by (simp add: added_def l1)
  next
    case False
    then have "setState s key v silent =
        fold (\<lambda>k st. this_notifySubscribers st k) (written_paths key) ?s1"
      using eq by simp
    then have "added s (setState s key v silent) = Y"
      by (simp add: added_def Y(1) l1)
    then show ?thesis using Y(2) by (simp add: b1)
  qed
qed

text \<open>
  Claim C7. Subscriptions are matched by the literal path: the callbacks that a
  \<^verbatim>\<open>setState\<close> calls are all subscribed under a path that it writes, so a callback
  subscribed under other paths only is not called; everything it adds to the trace is
  about a path it wrote; and for a path \<open>q\<close> that it does not write itself it leaves the
  subscriptions of \<open>q\<close> as they were (none is consumed) and calls or logs nothing with
  \<open>q\<close>.
\<close>

theorem exact_path_subscription:
  "set (called_of (added s (setState s key v silent))) \<subseteq>
     (\<Union>k \<in> set (written_paths key). refs_of (bucket s k))
   \<and> ((\<forall>k \<in> set (written_paths key). r \<notin> refs_of (bucket s k)) \<longrightarrow>
        r \<notin> set (called_of (added s (setState s key v silent))))
   \<and> list_all (\<lambda>e. trace_path e \<in> set (written_paths key)) (added s (setState s key v silent))
   \<and> (q \<notin> set (written_paths key) \<longrightarrow>
        subscribers (setState s key v silent) q = subscribers s q
        \<and> list_all (\<lambda>e. trace_path e \<noteq> q) (added s (setState s key v silent)))"
proof -
  have c: "set (called_of (added s (setState s key v silent))) \<subseteq>
     (\<Union>k \<in> set (written_paths key). refs_of (bucket s k))"
    by (rule setState_called)
  then have n: "r \<notin> set (called_of (added s (setState s key v silent)))"
    if "\<forall>k \<in> set (written_paths key). r \<notin> refs_of (bucket s k)"
    using that by blast
  obtain Y where Y: "log (setState s key v silent) = log s @ Y"
      "list_all (\<lambda>e. trace_path e \<in> set (written_paths key)) Y"
    using setState_log by blast
  have a: "added s (setState s key v silent) = Y"
    by (simp add: added_def Y(1))
  have p: "list_all (\<lambda>e. trace_path e \<in> set (written_paths key)) (added s (setState s key v silent))"
    using a Y(2) by simp
  have u: "subscribers (setState s key v silent) q = subscribers s q
        \<and> list_all (\<lambda>e. trace_path e \<noteq> q) (added s (setState s key v silent))"
    if "q \<notin> set (written_paths key)"
  proof -
    have "list_all (\<lambda>e. trace_path e \<noteq> q) Y"
      using Y(2) that by (auto simp: list_all_iff)
    then show ?thesis using a setState_subscribers [OF that] by simp
  qed
  show ?thesis using c n p u by blast
qed

lemma watched_store_buckets:
  "bucket watched_store ''preferences'' =
     [\<lparr>sid = 0, callback = Extern 1 quiet, ctx = Null, immediate = False, once = False\<rparr>]
   \<and> bucket watched_store ''preferences.reducedMotion'' =
     [\<lparr>sid = 1, callback = Extern 2 quiet, ctx = Null, immediate = False, once = False\<rparr>]"
  by (simp add: watched_store_def subscribe_dep_def subscribe_def no_options_def
        new_StateManager_def bucket_def Let_def)

theorem exact_path_subscription_witness:
  "written_paths (Path ''preferences.reducedMotion'') = [''preferences.reducedMotion'']
   \<and> ExtRef 1 \<notin> refs_of (bucket watched_store ''preferences.reducedMotion'')
   \<and> ExtRef 1 \<notin> set (called_of (added watched_store
        (setState watched_store (Path ''preferences.reducedMotion'') (Bool True) False)))
   \<and> added watched_store
        (setState watched_store (Path ''preferences.reducedMotion'') (Bool True) False)
      = [Called (ExtRef 2) (Bool True) ''preferences.reducedMotion'']
   \<and> written_paths (Path ''preferences'') = [''preferences'']
   \<and> ExtRef 2 \<notin> refs_of (bucket watched_store ''preferences'')
   \<and> ExtRef 2 \<notin> set (called_of (added watched_store
        (setState watched_store (Path ''preferences'') (Num 5) False)))
   \<and> added watched_store (setState watched_store (Path ''preferences'') (Num 5) False)
      = [Called (ExtRef 1) (Num 5) ''preferences'']
   \<and> ''preferences'' \<notin> set (written_paths (Path ''preferences.reducedMotion''))
   \<and> subscribers (setState watched_store (Path ''preferences.reducedMotion'') (Bool True) False)
        ''preferences'' = subscribers watched_store ''preferences''"
proof -
  have w1: "written_paths (Path ''preferences.reducedMotion'') = [''preferences.reducedMotion'']"
    by simp
  have w2: "written_paths (Path ''preferences'') = [''preferences'']"
    by simp
  have r1: "ExtRef 1 \<notin> refs_of (bucket watched_store ''preferences.reducedMotion'')"
    by (simp add: watched_store_buckets refs_of_def)
  have r2: "ExtRef 2 \<notin> refs_of (bucket watched_store ''preferences'')"
    by (simp add: watched_store_buckets refs_of_def)
  have h1: "\<forall>k \<in> set (written_paths (Path ''preferences.reducedMotion'')).
      ExtRef 1 \<notin> refs_of (bucket watched_store k)"
    using r1 by simp
  have h2: "\<forall>k \<in> set (written_paths (Path ''preferences'')).
      ExtRef 2 \<notin> refs_of (bucket watched_store k)"
    using r2 by simp
  have h3: "''preferences'' \<notin> set (written_paths (Path ''preferences.reducedMotion''))"
    by simp
  have e1: "added watched_store
        (setState watched_store (Path ''preferences.reducedMotion'') (Bool True) False)
      = [Called (ExtRef 2) (Bool True) ''preferences.reducedMotion'']"
    by code_simp
  have e2: "added watched_store (setState watched_store (Path ''preferences'') (Num 5) False)
      = [Called (ExtRef 1) (Num 5) ''preferences'']"
    by code_simp
  note t1 = exact_path_subscription [where s = watched_store
      and key = "Path ''preferences.reducedMotion''" and v = "Bool True" and silent = False
      and r = "ExtRef 1" and q = "''preferences''"]
  note t2 = exact_path_subscription [where s = watched_store
      and key = "Path ''preferences''" and v = "Num 5" and silent = False
      and r = "ExtRef 2" and q = "''preferences.reducedMotion''"]
  have c1: "ExtRef 1 \<notin> set (called_of (added watched_store
        (setState watched_store (Path ''preferences.reducedMotion'') (Bool True) False)))"
    using t1 h1 by blast
  have c2: "ExtRef 2 \<notin> set (called_of (added watched_store
        (setState watched_store (Path ''preferences'') (Num 5) False)))"
    using t2 h2 by blast
  have u: "subscribers (setState watched_store (Path ''preferences.reducedMotion'') (Bool True) False)
        ''preferences'' = subscribers watched_store ''preferences''"
    using t1 h3 by blast
  show ?thesis
    using w1 w2 r1 r2 h3 e1 e2 c1 c2 u by blast
qed

subsection \<open>Bulk writes and batches\<close>


lemma same_tree_sym: "same_tree s s' \<Longrightarrow> same_tree s' s"
  by (simp add: same_tree_def)


lemma store_eqI: "same_tree s s' \<Longrightarrow> tree_only s s' \<Longrightarrow> s' = s"
  by (simp add: same_tree_def tree_only_def)

lemma same_tree_alloc:
  "same_tree s s' \<Longrightarrow>
     fst (alloc s' ob) = fst (alloc s ob) \<and> same_tree (snd (alloc s ob)) (snd (alloc s' ob))"
  by (simp add: same_tree_def alloc_def)

lemma same_tree_shallow_copy:
  "same_tree s s' \<Longrightarrow>
     fst (shallow_copy s') = fst (shallow_copy s) \<and>
     same_tree (snd (shallow_copy s)) (snd (shallow_copy s'))"
  by (simp add: same_tree_def shallow_copy_def alloc_def)

lemma same_tree_descend:
  "same_tree s s' \<Longrightarrow>
     fst (descend (a, s') k) = fst (descend (a, s) k) \<and>
     same_tree (snd (descend (a, s) k)) (snd (descend (a, s') k))"
  by (simp add: same_tree_def descend_def alloc_def split: jsval.splits)

lemma same_tree_foldl_descend:
  "same_tree s s' \<Longrightarrow>
     fst (foldl descend (a, s') ks) = fst (foldl descend (a, s) ks) \<and>
     same_tree (snd (foldl descend (a, s) ks)) (snd (foldl descend (a, s') ks))"
proof (induction ks arbitrary: a s s')
  case Nil
  then show ?case by simp
next
  case (Cons k ks)
  obtain b u where d: "descend (a, s) k = (b, u)" by (cases "descend (a, s) k")
  obtain b' u' where d': "descend (a, s') k = (b', u')" by (cases "descend (a, s') k")
  have "b' = b \<and> same_tree u u'"
    using same_tree_descend [OF Cons.prems, of a k] by (simp add: d d')
  then show ?case
    using Cons.IH [of u u' b] by (simp add: d d')
qed

lemma same_tree_setNestedValue:
  "same_tree s s' \<Longrightarrow> same_tree (setNestedValue s path v) (setNestedValue s' path v)"
proof -
  assume a: "same_tree s s'"
  have st: "state s' = state s" using a by (simp add: same_tree_def)
  show ?thesis
    using same_tree_foldl_descend [OF a, of "state s" "butlast (split_dot path)"]
    by (simp add: setNestedValue_def Let_def case_prod_beta st) (simp add: same_tree_def)
qed

lemma same_tree_fold_writes:
  "same_tree s s' \<Longrightarrow>
     same_tree (fold (\<lambda>(k, x) st. setNestedValue st k x) kvs s)
               (fold (\<lambda>(k, x) st. setNestedValue st k x) kvs s')"
proof (induction kvs arbitrary: s s')
  case Nil
  then show ?case by simp
next
  case (Cons kv kvs)
  obtain k x where kv: "kv = (k, x)" by (cases kv)
  show ?case
    using Cons.IH [OF same_tree_setNestedValue [OF Cons.prems, of k x]] by (simp add: kv)
qed

lemma same_tree_apply_writes:
  "same_tree s s' \<Longrightarrow> same_tree (apply_writes s key v) (apply_writes s' key v)"
  by (cases key)
     (simp_all add: apply_writes_def same_tree_setNestedValue same_tree_fold_writes)

lemma same_tree_addToHistory:
  "same_tree s s' \<Longrightarrow> same_tree (addToHistory s old new) (addToHistory s' old new)"
  by (simp add: same_tree_def addToHistory_def Let_def)

lemma same_tree_setState_apply:
  assumes "same_tree s s'"
  shows "same_tree (setState_apply s key v) (setState_apply s' key v)"
proof -
  have c1: "fst (shallow_copy s') = fst (shallow_copy s)"
    and t1: "same_tree (snd (shallow_copy s)) (snd (shallow_copy s'))"
    using same_tree_shallow_copy [OF assms] by simp_all
  have t2: "same_tree (apply_writes (snd (shallow_copy s)) key v)
                      (apply_writes (snd (shallow_copy s')) key v)"
    using t1 by (rule same_tree_apply_writes)
  have c3: "fst (shallow_copy (apply_writes (snd (shallow_copy s')) key v)) =
            fst (shallow_copy (apply_writes (snd (shallow_copy s)) key v))"
    and t3: "same_tree (snd (shallow_copy (apply_writes (snd (shallow_copy s)) key v)))
                       (snd (shallow_copy (apply_writes (snd (shallow_copy s')) key v)))"
    using same_tree_shallow_copy [OF t2] by simp_all
  show ?thesis
    using same_tree_addToHistory [OF t3]
    by (simp add: setState_apply_def Let_def case_prod_beta c1 c3)
qed




lemma setState_apply_collectors_update:
  "setState_apply (s\<lparr>collectors := x\<rparr>) key v = (setState_apply s key v)\<lparr>collectors := x\<rparr>"
proof (rule store_eqI)
  have "same_tree (setState_apply s key v) (setState_apply (s\<lparr>collectors := x\<rparr>) key v)"
    by (rule same_tree_setState_apply) (simp add: same_tree_def)
  then show "same_tree ((setState_apply s key v)\<lparr>collectors := x\<rparr>)
               (setState_apply (s\<lparr>collectors := x\<rparr>) key v)"
    by (simp add: same_tree_def)
  show "tree_only ((setState_apply s key v)\<lparr>collectors := x\<rparr>)
               (setState_apply (s\<lparr>collectors := x\<rparr>) key v)"
    using tree_only_setState_apply [of s key v]
      tree_only_setState_apply [of "s\<lparr>collectors := x\<rparr>" key v]
    by (simp add: tree_only_def)
qed

lemma this_notifySubscribers_collecting:
  "this_notifySubscribers (s\<lparr>collectors := c # cs\<rparr>) k = s\<lparr>collectors := set_add k c # cs\<rparr>"
  by (simp add: this_notifySubscribers_def)

lemma fold_this_notifySubscribers_collecting:
  "fold (\<lambda>k st. this_notifySubscribers st k) ks (s\<lparr>collectors := c # cs\<rparr>) =
     s\<lparr>collectors := fold set_add ks c # cs\<rparr>"
  by (induction ks arbitrary: c) (simp_all add: this_notifySubscribers_collecting)

lemma setState_collecting:
  "setState (s\<lparr>collectors := c # cs\<rparr>) key v silent =
     (setState s key v True)
       \<lparr>collectors := (if silent then c else fold set_add (written_paths key) c) # cs\<rparr>"
  by (cases key)
     (simp_all add: setState_def setState_apply_collectors_update
        fold_this_notifySubscribers_collecting this_notifySubscribers_collecting)

lemma setState_silent_collectors_update:
  "setState (s\<lparr>collectors := x\<rparr>) key v True = (setState s key v True)\<lparr>collectors := x\<rparr>"
  by (simp add: setState_silent setState_apply_collectors_update)

lemma batch_writes_collectors_update:
  "batch_writes (s\<lparr>collectors := x\<rparr>) fn = (batch_writes s fn)\<lparr>collectors := x\<rparr>"
  by (induction s fn rule: batch_writes.induct)
     (simp_all add: setState_silent_collectors_update)

lemma run_actions_collecting:
  "run_actions (s\<lparr>collectors := c # cs\<rparr>) fn =
     ((batch_writes s fn)\<lparr>collectors := batch_collect c fn # cs\<rparr>, Throw \<in> set fn)"
proof (induction s fn arbitrary: c rule: batch_writes.induct)
  case (1 s)
  show ?case by simp
next
  case (2 s as)
  show ?case by simp
next
  case (3 s key v silent as)
  show ?case
    using "3.IH" [of "if silent then c else fold set_add (written_paths key) c"]
    by (simp add: setState_collecting)
qed

lemma batch_writes_tree_only: "tree_only s (batch_writes s fn)"
proof (induction s fn rule: batch_writes.induct)
  case (1 s)
  show ?case by (simp add: tree_only_refl)
next
  case (2 s as)
  show ?case by (simp add: tree_only_refl)
next
  case (3 s key v silent as)
  have "tree_only s (setState s key v True)"
    by (simp add: setState_silent tree_only_setState_apply)
  then show ?case using "3.IH" by (auto intro: tree_only_trans)
qed

lemma distinct_set_add: "distinct c \<Longrightarrow> distinct (set_add k c)"
  by (simp add: set_add_def)

lemma distinct_fold_set_add: "distinct c \<Longrightarrow> distinct (fold set_add ks c)"
  by (induction ks arbitrary: c) (simp_all add: distinct_set_add)

lemma distinct_batch_collect: "distinct c \<Longrightarrow> distinct (batch_collect c fn)"
  by (induction c fn rule: batch_collect.induct) (simp_all add: distinct_fold_set_add)



lemma batch_in_batch:
  assumes "collectors s \<noteq> []"
  shows "batch s fn =
           ((batch_writes s fn)
              \<lparr>collectors := fold set_add (batch_paths fn) (hd (collectors s)) # tl (collectors s)\<rparr>,
            Throw \<in> set fn)"
proof -
  obtain c cs where c: "collectors s = c # cs"
    using assms by (cases "collectors s") simp_all
  have r: "run_actions (s\<lparr>collectors := [] # c # cs\<rparr>) fn =
             ((batch_writes s fn)\<lparr>collectors := batch_paths fn # c # cs\<rparr>, Throw \<in> set fn)"
    by (simp add: run_actions_collecting batch_paths_def)
  have "fold (\<lambda>k st. this_notifySubscribers st k) (batch_paths fn)
          ((batch_writes s fn)\<lparr>collectors := c # cs\<rparr>) =
        (batch_writes s fn)\<lparr>collectors := fold set_add (batch_paths fn) c # cs\<rparr>"
    by (rule fold_this_notifySubscribers_collecting)
  then show ?thesis
    by (simp add: batch_def c r Let_def)
qed

















text \<open>
  Claim C4. A \<^verbatim>\<open>batch\<close> runs the writes of its function without any call of a
  subscriber and collects the distinct paths written (not silently). When it is not
  inside another batch it then restores the notification and notifies once per collected
  path, with the value read from the store after all the writes; when it is, it hands
  the collected paths to the collector of the enclosing batch. It does so also when the
  function throws, and the exception leaves \<^verbatim>\<open>batch\<close> afterwards.
\<close>

theorem batch_collapses_notifications:
  "distinct (batch_paths fn)
   \<and> added s (batch_writes s fn) = []
   \<and> (collectors s = [] \<longrightarrow>
        batch s fn =
          (fold (\<lambda>k st. notifySubscribers st k) (batch_paths fn) (batch_writes s fn),
           Throw \<in> set fn)
        \<and> added s (fst (batch s fn)) = notifications (batch_paths fn) (batch_writes s fn)
        \<and> collectors (fst (batch s fn)) = [])
   \<and> (collectors s \<noteq> [] \<longrightarrow>
        batch s fn =
          ((batch_writes s fn)
             \<lparr>collectors := fold set_add (batch_paths fn) (hd (collectors s)) # tl (collectors s)\<rparr>,
           Throw \<in> set fn))"
proof -
  let ?w = "batch_writes s fn"
  have lw: "log ?w = log s"
    using batch_writes_tree_only [of s fn] by (simp add: tree_only_def)
  have d: "distinct (batch_paths fn)"
    by (simp add: batch_paths_def distinct_batch_collect)
  have a0: "added s ?w = []"
    by (simp add: added_def lw)
  have outer: "batch s fn = (fold (\<lambda>k st. notifySubscribers st k) (batch_paths fn) ?w, Throw \<in> set fn)
        \<and> added s (fst (batch s fn)) = notifications (batch_paths fn) ?w
        \<and> collectors (fst (batch s fn)) = []"
    if "collectors s = []"
  proof -
    have cw: "collectors ?w = []"
      using batch_writes_tree_only [of s fn] that by (simp add: tree_only_def)
    have r: "run_actions (s\<lparr>collectors := [] # collectors s\<rparr>) fn =
               (?w\<lparr>collectors := batch_paths fn # collectors s\<rparr>, Throw \<in> set fn)"
      by (simp add: run_actions_collecting batch_paths_def)
    have restored: "?w\<lparr>collectors := collectors s\<rparr> = ?w"
      using cw that by simp
    have eq: "batch s fn =
         (fold (\<lambda>k st. notifySubscribers st k) (batch_paths fn) ?w, Throw \<in> set fn)"
      using fold_this_notifySubscribers_direct [OF cw, of "batch_paths fn"]
      by (simp add: batch_def r Let_def restored)
    have a1: "added s (fst (batch s fn)) = notifications (batch_paths fn) ?w"
      by (simp add: eq added_def fold_notifySubscribers_log lw)
    have c: "collectors (fst (batch s fn)) = []"
      by (simp add: eq fold_notifySubscribers_collectors cw)
    show ?thesis using eq a1 c by blast
  qed
  show ?thesis using d a0 outer batch_in_batch [of s fn] by blast
qed

theorem batch_collapses_notifications_witness:
  "collectors k_watch_store = []
   \<and> added k_watch_store
       (fst (batch k_watch_store
          [SetState (Path ''k'') (Num 1) False, SetState (Path ''k'') (Num 2) False, Throw]))
     = [Called (ExtRef 1) (Num 2) ''k'']
   \<and> snd (batch k_watch_store
          [SetState (Path ''k'') (Num 1) False, SetState (Path ''k'') (Num 2) False, Throw])
   \<and> collectors (fst (batch k_watch_store
          [SetState (Path ''k'') (Num 1) False, SetState (Path ''k'') (Num 2) False, Throw])) = []"
proof -
  let ?fn = "[SetState (Path ''k'') (Num 1) False, SetState (Path ''k'') (Num 2) False, Throw]"
  have h: "collectors k_watch_store = []"
    by code_simp
  have e: "notifications (batch_paths ?fn) (batch_writes k_watch_store ?fn) =
             [Called (ExtRef 1) (Num 2) ''k'']"
    by code_simp
  note t = batch_collapses_notifications [where s = k_watch_store and fn = ?fn]
  have a: "added k_watch_store (fst (batch k_watch_store ?fn)) =
             notifications (batch_paths ?fn) (batch_writes k_watch_store ?fn)"
    using t h by blast
  have th: "snd (batch k_watch_store ?fn)"
    using t h by simp
  have c: "collectors (fst (batch k_watch_store ?fn)) = []"
    using t h by blast
  show ?thesis
    using h th c by (simp only: a e simp_thms)
qed

subsection \<open>Computed values\<close>


















subsection \<open>The history\<close>

text \<open>
  Claim C2 fails on the code: \<^verbatim>\<open>{ ...this.state }\<close> copies one level, so the old
  state kept in the history shares the nested objects with the live tree. In a fresh
  store \<^verbatim>\<open>preferences.reducedMotion\<close> is false; after it is set to true, the one
  entry of the history reads true there in its old state (and in its new state).
\<close>

theorem history_old_state_sees_nested_write:
  "read_path (heap (new_StateManager 0)) (state (new_StateManager 0))
      ''preferences.reducedMotion'' = Bool False
   \<and> map (\<lambda>e. read_path (heap nested_write_store) (oldState e) ''preferences.reducedMotion'')
       (history nested_write_store) = [Bool True]
   \<and> map (\<lambda>e. read_path (heap nested_write_store) (newState e) ''preferences.reducedMotion'')
       (history nested_write_store) = [Bool True]"
  by code_simp

text \<open>The rest of claim C2 holds: the history gets the new entry last, loses its oldest
  entry when it would exceed the bound, and stays within the bound.\<close>

lemma addToHistory_fifo:
  "history (addToHistory s old new) =
     (if length (history s) < maxHistoryLength s
      then history s @ [\<lparr>timestamp = clock s, oldState = old, newState = new\<rparr>]
      else tl (history s @ [\<lparr>timestamp = clock s, oldState = old, newState = new\<rparr>]))"
  by (auto simp: addToHistory_def Let_def)

lemma addToHistory_bounded:
  "length (history s) \<le> maxHistoryLength s \<Longrightarrow>
     length (history (addToHistory s old new)) \<le> maxHistoryLength s"
  by (auto simp: addToHistory_def Let_def)

lemma alloc_history: "history (snd (alloc s ob)) = history s"
  by (simp add: alloc_def)

lemma shallow_copy_history: "history (snd (shallow_copy s)) = history s"
  by (simp add: shallow_copy_def alloc_history)

lemma descend_history: "history (snd (descend as k)) = history (snd as)"
  by (cases as) (simp add: descend_def alloc_def split: jsval.splits)

lemma foldl_descend_history: "history (snd (foldl descend as ks)) = history (snd as)"
  by (induction ks arbitrary: as) (simp_all add: descend_history)

lemma setNestedValue_history: "history (setNestedValue s path v) = history s"
  using foldl_descend_history [of "(state s, s)" "butlast (split_dot path)"]
  by (simp add: setNestedValue_def Let_def case_prod_beta)

lemma fold_writes_history:
  "history (fold (\<lambda>(k, x) st. setNestedValue st k x) kvs s) = history s"
  by (induction kvs arbitrary: s) (simp_all add: case_prod_beta setNestedValue_history)

lemma apply_writes_history: "history (apply_writes s key v) = history s"
  by (cases key) (simp_all add: apply_writes_def setNestedValue_history fold_writes_history)

lemma setState_apply_history:
  "history (setState_apply s key v) =
     (if length (history s) < maxHistoryLength s
      then history s @
           [\<lparr>timestamp = clock s, oldState = fst (shallow_copy s),
             newState = fst (shallow_copy (apply_writes (snd (shallow_copy s)) key v))\<rparr>]
      else tl (history s @
           [\<lparr>timestamp = clock s, oldState = fst (shallow_copy s),
             newState = fst (shallow_copy (apply_writes (snd (shallow_copy s)) key v))\<rparr>]))"
proof -
  let ?s1 = "snd (shallow_copy s)"
  let ?s2 = "apply_writes ?s1 key v"
  let ?s3 = "snd (shallow_copy ?s2)"
  have h: "history ?s3 = history s"
    by (simp add: shallow_copy_history apply_writes_history)
  have "tree_only s ?s3"
    using tree_only_shallow_copy [of s] tree_only_apply_writes [of ?s1 key v]
      tree_only_shallow_copy [of ?s2]
    by (blast intro: tree_only_trans)
  then have c: "clock ?s3 = clock s" and m: "maxHistoryLength ?s3 = maxHistoryLength s"
    by (simp_all add: tree_only_def)
  show ?thesis
    by (simp add: setState_apply_def Let_def case_prod_beta addToHistory_fifo h c m)
qed

lemma history_bounded_setState_apply:
  "history_bounded s \<Longrightarrow> history_bounded (setState_apply s key v)"
  using tree_only_setState_apply [of s key v]
  by (auto simp: history_bounded_def setState_apply_history tree_only_def)

lemma history_bounded_getState:
  "history_bounded s \<Longrightarrow> history_bounded (snd (getState s key))"
  using tree_only_shallow_copy [of s]
  by (simp add: history_bounded_def getState_def case_prod_beta shallow_copy_history
        tree_only_def)

lemma history_bounded_getStates:
  "history_bounded s \<Longrightarrow> history_bounded (snd (getStates s deps))"
  by (induction deps arbitrary: s) (simp_all add: case_prod_beta history_bounded_getState)

lemma history_bounded_updateComputed:
  "history_bounded s \<Longrightarrow> history_bounded (updateComputed s f deps t)"
  by (simp add: updateComputed_def case_prod_beta Let_def history_bounded_getStates
        history_bounded_setState_apply)

lemma history_bounded_log_call:
  "history_bounded s \<Longrightarrow> history_bounded (log_call s r v k)"
  by (simp add: history_bounded_def log_call_def)

lemma history_bounded_notify_one:
  "history_bounded s \<Longrightarrow> history_bounded (notify_one key v sub s)"
proof (cases "callback sub")
  case (Extern i t)
  assume "history_bounded s"
  then show ?thesis
    using Extern
    by (simp add: notify_one_def invoke_def call_callback_def console_error_def
          delete_subscription_def log_call_def history_bounded_def)
next
  case (UpdateComputed i f deps t)
  assume "history_bounded s"
  then have "history_bounded (updateComputed (log_call s (CompRef i) v key) f deps t)"
    by (simp add: history_bounded_updateComputed history_bounded_log_call)
  then show ?thesis
    using UpdateComputed
    by (simp add: notify_one_def invoke_def call_callback_def delete_subscription_def
          history_bounded_def)
next
  case (NonFunction x)
  assume "history_bounded s"
  then show ?thesis
    using NonFunction
    by (simp add: notify_one_def invoke_def call_callback_def console_error_def
          history_bounded_def)
qed

lemma history_bounded_fold_notify_one:
  "history_bounded s \<Longrightarrow> history_bounded (fold (notify_one key v) subs s)"
  by (induction subs arbitrary: s) (simp_all add: history_bounded_notify_one)

lemma history_bounded_notifySubscribers:
  assumes "history_bounded s"
  shows "history_bounded (notifySubscribers s key)"
proof (cases "subscribers s key")
  case None
  then show ?thesis using assms by (simp add: notifySubscribers_def)
next
  case (Some subs)
  have "history_bounded (fold (notify_one key (fst (getState s key))) subs (snd (getState s key)))"
    using assms by (simp add: history_bounded_fold_notify_one history_bounded_getState)
  then show ?thesis
    using Some
    by (simp add: notifySubscribers_def case_prod_beta Let_def cleanup_def history_bounded_def)
qed

lemma history_bounded_this_notifySubscribers:
  "history_bounded s \<Longrightarrow> history_bounded (this_notifySubscribers s key)"
  by (cases "collectors s")
     (simp_all add: this_notifySubscribers_def history_bounded_notifySubscribers,
      simp add: history_bounded_def)

lemma history_bounded_fold_this_notifySubscribers:
  "history_bounded s \<Longrightarrow>
     history_bounded (fold (\<lambda>k st. this_notifySubscribers st k) ks s)"
  by (induction ks arbitrary: s) (simp_all add: history_bounded_this_notifySubscribers)

lemma history_bounded_setState:
  "history_bounded s \<Longrightarrow> history_bounded (setState s key v silent)"
  by (cases key)
     (simp_all add: setState_def Let_def history_bounded_setState_apply
        history_bounded_fold_this_notifySubscribers history_bounded_this_notifySubscribers)

lemma history_bounded_new: "history_bounded (new_StateManager now)"
  by (simp add: history_bounded_def new_StateManager_def)

lemma maxHistoryLength_new: "maxHistoryLength (new_StateManager now) = 50"
  by (simp add: new_StateManager_def)

end
